theory Spec2Isabelle
  imports Complex_Main "HOL-Library.Char_ord" "HOL-Library.List_Lexorder" "HOL-Library.Multiset"
begin

section \<open>Python text and numbers\<close>

text \<open>
  A Python \<open>str\<close> is modelled as a \<open>string\<close> whose characters are the code points
  U+0000 to U+00FF, one \<open>char\<close> per code point, so that \<open>length\<close> is Python's \<open>len\<close>.
  Text with code points above U+00FF is outside the model. The character classes below are
  those of CPython 3 on that range (\<open>str.isspace\<close>, \<open>str.isupper\<close>, and the classes
  \<open>\s\<close>, \<open>\d\<close>, \<open>\w\<close> of the \<open>re\<close> module on \<open>str\<close> patterns).
\<close>

definition cp :: "char \<Rightarrow> nat" where
  "cp c = of_char c"

definition in_range :: "nat \<Rightarrow> nat \<Rightarrow> char \<Rightarrow> bool" where
  "in_range lo hi c = (lo \<le> cp c \<and> cp c \<le> hi)"

text \<open>\<open>str.isspace\<close> and the class \<open>\s\<close>.\<close>

definition is_space :: "char \<Rightarrow> bool" where
  "is_space c = (in_range 0x09 0x0D c \<or> in_range 0x1C 0x20 c \<or> cp c = 0x85 \<or> cp c = 0xA0)"

text \<open>The class \<open>\d\<close> and \<open>[0-9]\<close>.\<close>

definition is_digit :: "char \<Rightarrow> bool" where
  "is_digit c = in_range 0x30 0x39 c"

text \<open>Characters with the Unicode property Uppercase, and with the property Lowercase.\<close>

definition is_upper :: "char \<Rightarrow> bool" where
  "is_upper c = (in_range 0x41 0x5A c \<or> in_range 0xC0 0xD6 c \<or> in_range 0xD8 0xDE c)"

definition is_lower :: "char \<Rightarrow> bool" where
  "is_lower c = (in_range 0x61 0x7A c \<or> cp c = 0xAA \<or> cp c = 0xB5 \<or> cp c = 0xBA
     \<or> in_range 0xDF 0xF6 c \<or> in_range 0xF8 0xFF c)"

text \<open>The class \<open>\w\<close>: alphanumeric characters and the underscore.\<close>

definition is_word :: "char \<Rightarrow> bool" where
  "is_word c = (is_digit c \<or> is_upper c \<or> is_lower c \<or> cp c = 0x5F
     \<or> cp c = 0xB2 \<or> cp c = 0xB3 \<or> cp c = 0xB9 \<or> in_range 0xBC 0xBE c)"

text \<open>\<open>str.strip()\<close> with no argument.\<close>

definition strip :: "string \<Rightarrow> string" where
  "strip s = rev (dropWhile is_space (rev (dropWhile is_space s)))"

text \<open>\<open>s.replace(old, new)\<close> for a one-character \<open>old\<close>.\<close>

definition replace :: "char \<Rightarrow> string \<Rightarrow> string \<Rightarrow> string" where
  "replace old new s = concat (map (\<lambda>c. if c = old then new else [c]) s)"

datatype py_error = ValueError | AttributeError

subsection \<open>The built-in \<open>float\<close>\<close>

text \<open>
  A Python float is modelled by the rational number its decimal spelling denotes: the
  arithmetic is exact, and the rounding, overflow and underflow of binary64 are not
  modelled. \<open>float(s)\<close> strips white space, reads an optional sign, and then a decimal
  number: digits with single underscores between them, an optional point, an optional
  exponent. Any other string raises \<open>ValueError\<close>. The built-in also reads the spellings
  \<open>inf\<close>, \<open>infinity\<close> and \<open>nan\<close>; these floats denote no rational and are reported as
  \<open>ValueError\<close> here. No string drawn from digits, points and commas spells one.
\<close>

text \<open>The white space \<open>float\<close> strips (it keeps U+001C to U+001F).\<close>

definition float_space :: "char \<Rightarrow> bool" where
  "float_space c = (in_range 0x09 0x0D c \<or> cp c = 0x20 \<or> cp c = 0x85 \<or> cp c = 0xA0)"

fun digitpart :: "string \<Rightarrow> bool" where
  "digitpart [] = False"
| "digitpart [c] = is_digit c"
| "digitpart (c # d # cs) =
     (is_digit c \<and> (if d = CHR ''_'' then digitpart cs else digitpart (d # cs)))"

definition digit_val :: "char \<Rightarrow> nat" where
  "digit_val c = cp c - 0x30"

definition digits_val :: "string \<Rightarrow> nat" where
  "digits_val s = foldl (\<lambda>a c. 10 * a + digit_val c) 0 (filter is_digit s)"

definition is_sign :: "char \<Rightarrow> bool" where
  "is_sign c = (c = CHR ''+'' \<or> c = CHR ''-'')"

definition unsigned :: "string \<Rightarrow> string" where
  "unsigned s = (case s of [] \<Rightarrow> [] | c # cs \<Rightarrow> if is_sign c then cs else s)"

definition negative :: "string \<Rightarrow> bool" where
  "negative s = (case s of [] \<Rightarrow> False | c # cs \<Rightarrow> c = CHR ''-'')"

definition is_exp_mark :: "char \<Rightarrow> bool" where
  "is_exp_mark c = (c = CHR ''e'' \<or> c = CHR ''E'')"

text \<open>The mantissa: \<open>digits\<close>, \<open>digits.\<close>, \<open>digits.digits\<close> or \<open>.digits\<close>.\<close>

definition mantissa :: "string \<Rightarrow> rat option" where
  "mantissa m =
     (let ip = takeWhile (\<lambda>c. c \<noteq> CHR ''.'') m;
          r = dropWhile (\<lambda>c. c \<noteq> CHR ''.'') m
      in if r = [] then (if digitpart ip then Some (of_nat (digits_val ip)) else None)
         else (let fp = tl r
               in if (digitpart ip \<and> (fp = [] \<or> digitpart fp)) \<or> (ip = [] \<and> digitpart fp)
                  then Some (of_nat (digits_val ip)
                             + of_nat (digits_val fp) / 10 ^ length (filter is_digit fp))
                  else None))"

text \<open>The exponent after the mark: an optional sign and digits.\<close>

definition exponent :: "string \<Rightarrow> int option" where
  "exponent e =
     (if digitpart (unsigned e)
      then Some (if negative e then - int (digits_val (unsigned e)) else int (digits_val (unsigned e)))
      else None)"

definition scale10 :: "rat \<Rightarrow> int \<Rightarrow> rat" where
  "scale10 q e = (if 0 \<le> e then q * 10 ^ nat e else q / 10 ^ nat (- e))"

definition py_float :: "string \<Rightarrow> py_error + rat" where
  "py_float s =
     (let t = rev (dropWhile float_space (rev (dropWhile float_space s)));
          u = unsigned t;
          m = takeWhile (\<lambda>c. \<not> is_exp_mark c) u;
          r = dropWhile (\<lambda>c. \<not> is_exp_mark c) u
      in case mantissa m of
           None \<Rightarrow> Inl ValueError
         | Some q \<Rightarrow>
             (case (if r = [] then Some 0 else exponent (tl r)) of
                None \<Rightarrow> Inl ValueError
              | Some e \<Rightarrow> Inr ((if negative t then - 1 else 1) * scale10 q e)))"

section \<open>Numeric Normalizer\<close>

text \<open>
  \<open>br_to_float\<close>: the argument is \<open>None\<close> or a string. With a comma in the stripped
  text the Brazilian reading is tried first; its rewritten text is bound to the same
  variable \<open>t\<close>, so the fallback works on the rewritten text when the first \<open>float\<close>
  raised. Both \<open>try\<close> blocks catch every exception.
\<close>

definition br_to_float :: "string option \<Rightarrow> rat option" where
  "br_to_float txt =
     (case txt of
        None \<Rightarrow> None
      | Some s \<Rightarrow>
          (let t = strip s;
               fallback = (\<lambda>t. let t2 = replace (CHR '','') [] t
                                in case py_float t2 of Inr v \<Rightarrow> Some v | Inl _ \<Rightarrow> None)
           in if CHR '','' \<in> set t
              then (let t = replace (CHR '','') ''.'' (replace (CHR ''.'') [] t)
                    in case py_float t of Inr v \<Rightarrow> Some v | Inl _ \<Rightarrow> fallback t)
              else fallback t))"

section \<open>Regular expressions\<close>

text \<open>
  The constructs of Python's \<open>re\<close> module that the program uses, with the matcher's
  backtracking order. A matcher state is the text before the position, the text after
  it, and the groups captured so far. \<open>ms r st\<close> lists the states in which a match of
  \<open>r\<close> from \<open>st\<close> can end, in the order the backtracking matcher tries them: a greedy
  repetition offers its longest run first, a lazy one its shortest; the first state of
  the list is Python's match.
\<close>

datatype 'a re =
    Eps
  | Cls "'a \<Rightarrow> bool"
  | Rep bool nat "nat option" "'a \<Rightarrow> bool"
  | Seq "'a re" "'a re"
  | Opt "'a re"
  | Grp string "'a re"
  | Bol
  | Eol "'a \<Rightarrow> bool"
  | WordB "'a \<Rightarrow> bool"

type_synonym 'a mstate = "'a list \<times> 'a list \<times> (string \<times> 'a list) list"

text \<open>All ways to step over a run of characters of a class, shortest first.\<close>

fun runs :: "('a \<Rightarrow> bool) \<Rightarrow> 'a list \<Rightarrow> 'a list \<Rightarrow> ('a list \<times> 'a list) list" where
  "runs C pre [] = [(pre, [])]"
| "runs C pre (c # cs) = (pre, c # cs) # (if C c then runs C (pre @ [c]) cs else [])"

fun ms :: "'a re \<Rightarrow> 'a mstate \<Rightarrow> 'a mstate list" where
  "ms Eps st = [st]"
| "ms (Cls C) (pre, suf, g) =
     (case suf of [] \<Rightarrow> [] | c # cs \<Rightarrow> if C c then [(pre @ [c], cs, g)] else [])"
| "ms (Rep greedy lo hi C) (pre, suf, g) =
     (let ks = drop lo (case hi of None \<Rightarrow> runs C pre suf | Some h \<Rightarrow> take (Suc h) (runs C pre suf))
      in map (\<lambda>(p, s). (p, s, g)) (if greedy then rev ks else ks))"
| "ms (Seq a b) st = concat (map (ms b) (ms a st))"
| "ms (Opt r) st = ms r st @ [st]"
| "ms (Grp nm r) (pre, suf, g) =
     map (\<lambda>(pre', suf', g'). (pre', suf', (nm, drop (length pre) pre') # g')) (ms r (pre, suf, g))"
| "ms Bol (pre, suf, g) = (if pre = [] then [(pre, suf, g)] else [])"
| "ms (Eol nl) (pre, suf, g) =
     (if suf = [] \<or> (length suf = 1 \<and> nl (hd suf)) then [(pre, suf, g)] else [])"
| "ms (WordB w) (pre, suf, g) =
     (if (pre \<noteq> [] \<and> w (last pre)) \<noteq> (suf \<noteq> [] \<and> w (hd suf)) then [(pre, suf, g)] else [])"

text \<open>\<open>m.end()\<close> and \<open>m.group(name)\<close> of a match object.\<close>

definition m_end :: "'a mstate \<Rightarrow> nat" where
  "m_end m = length (fst m)"

definition group :: "'a mstate \<Rightarrow> string \<Rightarrow> 'a list option" where
  "group m nm = map_of (snd (snd m)) nm"

text \<open>\<open>re.match\<close>: a match at the start of the string.\<close>

definition re_match :: "'a re \<Rightarrow> 'a list \<Rightarrow> 'a mstate option" where
  "re_match r s = (case ms r ([], s, []) of [] \<Rightarrow> None | m # _ \<Rightarrow> Some m)"

text \<open>\<open>re.search\<close>: the match at the leftmost position that has one.\<close>

fun search_from :: "'a re \<Rightarrow> 'a list \<Rightarrow> 'a list \<Rightarrow> 'a mstate option" where
  "search_from r pre [] = (case ms r (pre, [], []) of [] \<Rightarrow> None | m # _ \<Rightarrow> Some m)"
| "search_from r pre (c # cs) =
     (case ms r (pre, c # cs, []) of [] \<Rightarrow> search_from r (pre @ [c]) cs | m # _ \<Rightarrow> Some m)"

definition re_search :: "'a re \<Rightarrow> 'a list \<Rightarrow> 'a mstate option" where
  "re_search r s = search_from r [] s"

text \<open>
  \<open>re.sub\<close>: the leftmost matches, one after the other, are replaced. The last argument
  counts the characters of the current match still to be stepped over. After an empty
  match the next character is copied; no pattern of this program matches the empty string.
\<close>

fun sub_from :: "'a re \<Rightarrow> 'a list \<Rightarrow> 'a list \<Rightarrow> 'a list \<Rightarrow> nat \<Rightarrow> 'a list" where
  "sub_from r repl pre [] k = (case ms r (pre, [], []) of [] \<Rightarrow> [] | m # _ \<Rightarrow> repl)"
| "sub_from r repl pre (c # cs) (Suc k) = sub_from r repl (pre @ [c]) cs k"
| "sub_from r repl pre (c # cs) 0 =
     (case ms r (pre, c # cs, []) of
        [] \<Rightarrow> c # sub_from r repl (pre @ [c]) cs 0
      | m # _ \<Rightarrow>
          (if m_end m \<le> length pre then repl @ c # sub_from r repl (pre @ [c]) cs 0
           else repl @ sub_from r repl (pre @ [c]) cs (m_end m - length pre - 1)))"

definition re_sub :: "'a re \<Rightarrow> 'a list \<Rightarrow> 'a list \<Rightarrow> 'a list" where
  "re_sub r repl s = sub_from r repl [] s 0"

text \<open>The character classes of the patterns.\<close>

definition dot :: "char \<Rightarrow> bool" where
  "dot c = (c \<noteq> CHR 0x0A)"

definition newline :: "char \<Rightarrow> bool" where
  "newline c = (c = CHR 0x0A)"

definition num_char :: "char \<Rightarrow> bool" where
  "num_char c = (is_digit c \<or> c = CHR ''.'' \<or> c = CHR '','')"

text \<open>\<open>[A-Za-z\<close>, U+00C0 to U+00D6, U+00D8 to U+00F6, U+00F8 to U+00FF\<open>]\<close>.\<close>

definition letter :: "char \<Rightarrow> bool" where
  "letter c = (in_range 0x41 0x5A c \<or> in_range 0x61 0x7A c \<or> in_range 0xC0 0xD6 c
     \<or> in_range 0xD8 0xF6 c \<or> in_range 0xF8 0xFF c)"

text \<open>\<open>str.lower\<close> on one character, and a literal under \<open>re.IGNORECASE\<close>.\<close>

definition lower :: "char \<Rightarrow> char" where
  "lower c = (if is_upper c then char_of (cp c + 32) else c)"

fun lit_ci :: "string \<Rightarrow> char re" where
  "lit_ci [] = Eps"
| "lit_ci (c # cs) = Seq (Cls (\<lambda>x. lower x = lower c)) (lit_ci cs)"

definition NUM_TOKEN :: "char re" where
  "NUM_TOKEN = Rep True 1 None num_char"

section \<open>More string operations\<close>

text \<open>
  \<open>str.splitlines()\<close>: the line boundaries on this range are U+000A to U+000D, U+001C to
  U+001E and U+0085; a carriage return followed by a line feed is one boundary; a final
  boundary opens no further line.
\<close>

definition is_linebreak :: "char \<Rightarrow> bool" where
  "is_linebreak c = (in_range 0x0A 0x0D c \<or> in_range 0x1C 0x1E c \<or> cp c = 0x85)"

fun split_acc :: "string \<Rightarrow> string \<Rightarrow> string list" where
  "split_acc cur [] = (if cur = [] then [] else [cur])"
| "split_acc cur [c] = (if is_linebreak c then [cur] else [cur @ [c]])"
| "split_acc cur (c # d # cs) =
     (if c = CHR 0x0D \<and> d = CHR 0x0A then cur # split_acc [] cs
      else if is_linebreak c then cur # split_acc [] (d # cs)
      else split_acc (cur @ [c]) (d # cs))"

definition splitlines :: "string \<Rightarrow> string list" where
  "splitlines s = split_acc [] s"

text \<open>\<open>str.isupper()\<close>: no lower-case character and at least one upper-case character.\<close>

definition isupper :: "string \<Rightarrow> bool" where
  "isupper s = (\<not> list_ex is_lower s \<and> list_ex is_upper s)"

text \<open>\<open>k in s\<close> and \<open>s.find(k)\<close> on strings.\<close>

fun starts_with :: "'a list \<Rightarrow> 'a list \<Rightarrow> bool" where
  "starts_with s [] = True"
| "starts_with [] (k # ks) = False"
| "starts_with (c # cs) (k # ks) = (c = k \<and> starts_with cs ks)"

fun contains :: "'a list \<Rightarrow> 'a list \<Rightarrow> bool" where
  "contains [] k = (k = [])"
| "contains (c # cs) k = (starts_with (c # cs) k \<or> contains cs k)"

fun find_from :: "nat \<Rightarrow> 'a list \<Rightarrow> 'a list \<Rightarrow> int" where
  "find_from i [] k = (if k = [] then int i else - 1)"
| "find_from i (c # cs) k = (if starts_with (c # cs) k then int i else find_from (Suc i) cs k)"

definition find :: "'a list \<Rightarrow> 'a list \<Rightarrow> int" where
  "find s k = find_from 0 s k"

text \<open>
  \<open>str.upper()\<close>. Three characters of the range leave it: U+00B5 becomes U+039C, U+00FF
  becomes U+0178, and U+00DF becomes two letters S. The result is therefore a list of
  code points.
\<close>

definition upper_char :: "char \<Rightarrow> nat list" where
  "upper_char c =
     (if in_range 0x61 0x7A c \<or> in_range 0xE0 0xF6 c \<or> in_range 0xF8 0xFE c then [cp c - 32]
      else if cp c = 0xB5 then [0x39C]
      else if cp c = 0xDF then [0x53, 0x53]
      else if cp c = 0xFF then [0x178]
      else [cp c])"

definition upper :: "string \<Rightarrow> nat list" where
  "upper s = concat (map upper_char s)"

text \<open>\<open>os.path.basename\<close> of \<open>posixpath\<close>: the text after the last slash.\<close>

definition basename :: "string \<Rightarrow> string" where
  "basename p = rev (takeWhile (\<lambda>c. c \<noteq> CHR ''/'') (rev p))"

section \<open>Sector Guesser\<close>

text \<open>\<open>Departamento:\s*([\s\S]{0,40})\<close>, compiled with \<open>re.IGNORECASE\<close>.\<close>

definition departamento :: "char re" where
  "departamento =
     Seq (lit_ci ''Departamento:'')
       (Seq (Rep True 0 None is_space) (Grp ''1'' (Rep True 0 (Some 40) (\<lambda>c. True))))"

text \<open>The key words, as code points; the second one has U+00C7.\<close>

definition chaves :: "nat list list" where
  "chaves = map (map cp) [''FRIOS'', ''A'' @ [CHR 0xC7] @ ''OUGUE'', ''PADARIA'', ''HORTIFRUTI'',
     ''BEBIDAS'', ''MERCEARIA'']"

text \<open>\<open>[^A-Z0-9]\<close> on code points.\<close>

definition not_AZ09 :: "nat \<Rightarrow> bool" where
  "not_AZ09 n = (\<not> ((0x41 \<le> n \<and> n \<le> 0x5A) \<or> (0x30 \<le> n \<and> n \<le> 0x39)))"

text \<open>The loop over the key words; it returns at the first key word found in the name.\<close>

fun chave_loop :: "nat list list \<Rightarrow> nat list \<Rightarrow> string" where
  "chave_loop [] base_up = ''N/D''"
| "chave_loop (chave # rest) base_up =
     (if contains base_up chave
      then (let start = nat (find base_up chave);
                end = min (length base_up) (start + length chave + 2)
            in map char_of (re_sub (Cls not_AZ09) [] (drop start (take end base_up))))
      else chave_loop rest base_up)"

text \<open>
  \<open>guess_setor\<close>: the file name is \<open>None\<close> or a string. The slice \<open>text[m.end():]\<close>
  starts where the whole match ends, that is after the marker, the white space and the
  group of up to 40 characters.
\<close>

definition guess_setor :: "string \<Rightarrow> string option \<Rightarrow> string" where
  "guess_setor text filename =
     (case (case re_search departamento text of
              None \<Rightarrow> None
            | Some m \<Rightarrow>
                (let tail = splitlines (drop (m_end m) text)
                 in List.find (\<lambda>t. 2 \<le> length t \<and> length t \<le> 20 \<and> isupper t)
                      (map strip (take 5 tail)))) of
        Some t \<Rightarrow> t
      | None \<Rightarrow>
          (let base = basename (case filename of None \<Rightarrow> [] | Some f \<Rightarrow> f);
               base_up = upper base
           in chave_loop chaves base_up))"

section \<open>Line Classifier, Record Validator and Aggregator\<close>

record produto =
  nome :: string
  preco_unit :: rat
  quantidade :: rat
  valor :: rat

text \<open>The denylist; two entries have letters beyond ASCII.\<close>

definition lixo :: "string list" where
  "lixo = [''Curva ABC'', ''Per'' @ [CHR 0xED] @ ''odo'', ''CST'', ''ECF'',
     ''Situa'' @ [CHR 0xE7, CHR 0xE3] @ ''o Tribut'' @ [CHR 0xE1] @ ''ria'',
     ''Classif.'', ''Codigo'', ''Barras'', ''Total do Departamento'',
     ''Total Geral'', ''www.grupotecnoweb.com.br'']"

text \<open>\<open>\s{2,}\<close>, \<open>\b\d{8,13}\b$\<close> and \<open>\b\d{4,8}\b\s*$\<close>.\<close>

definition spaces2 :: "char re" where
  "spaces2 = Rep True 2 None is_space"

definition ean :: "char re" where
  "ean = Seq (WordB is_word) (Seq (Rep True 8 (Some 13) is_digit) (Seq (WordB is_word) (Eol newline)))"

definition codigo :: "char re" where
  "codigo = Seq (WordB is_word) (Seq (Rep True 4 (Some 8) is_digit)
     (Seq (WordB is_word) (Seq (Rep True 0 None is_space) (Eol newline))))"

text \<open>
  \<open>^(?P<nome>.+?)\s+(?P<preco>N)\s+(?P<qtd>N)\s+(?P<valor>N)(\s+.+)?$\<close> with \<open>N\<close>
  the pattern \<open>NUM_TOKEN\<close>.
\<close>

definition patt :: "char re" where
  "patt =
     Seq Bol (Seq (Grp ''nome'' (Rep False 1 None dot))
       (Seq (Rep True 1 None is_space) (Seq (Grp ''preco'' NUM_TOKEN)
         (Seq (Rep True 1 None is_space) (Seq (Grp ''qtd'' NUM_TOKEN)
           (Seq (Rep True 1 None is_space) (Seq (Grp ''valor'' NUM_TOKEN)
             (Seq (Opt (Grp ''5'' (Seq (Rep True 1 None is_space) (Rep True 1 None dot))))
               (Eol newline)))))))))"

text \<open>\<open>[A-Za-z...]{3,}\<close>: three letters in a row.\<close>

definition letters3 :: "char re" where
  "letters3 = Rep True 3 None letter"

text \<open>The two substitutions that drop a final bar code and a final internal code.\<close>

definition clean :: "string \<Rightarrow> string" where
  "clean line = (let ln_clean = strip (re_sub ean [] line) in strip (re_sub codigo [] ln_clean))"

text \<open>
  The body of the loop over the lines, from the pattern match on: \<open>produtos\<close> is returned
  unchanged where the source says \<open>continue\<close>, and with one more record where it appends.
  \<open>m.group("nome").strip()\<close> raises \<open>AttributeError\<close> when the group is \<open>None\<close>.
\<close>

definition match_step :: "char mstate \<Rightarrow> produto list \<Rightarrow> py_error + produto list" where
  "match_step m produtos =
     (case group m ''nome'' of
        None \<Rightarrow> Inl AttributeError
      | Some g \<Rightarrow>
          (let nome = strip g;
               preco = br_to_float (group m ''preco'');
               qtd = br_to_float (group m ''qtd'');
               val = br_to_float (group m ''valor'')
           in if (case preco of None \<Rightarrow> True | Some p \<Rightarrow> p \<le> 0) then Inr produtos
              else if (case val of None \<Rightarrow> True | Some v \<Rightarrow> v < 0) then Inr produtos
              else if (case qtd of None \<Rightarrow> True | Some q \<Rightarrow> q < 0) then Inr produtos
              else if re_search letters3 nome = None then Inr produtos
              else Inr (produtos @ [\<lparr>nome = nome, preco_unit = the preco,
                                     quantidade = the qtd, valor = the val\<rparr>])))"

definition line_step :: "string \<Rightarrow> produto list \<Rightarrow> py_error + produto list" where
  "line_step line produtos =
     (if line = [] \<or> list_ex (\<lambda>k. contains line k) lixo then Inr produtos
      else (case re_match patt (clean line) of
              None \<Rightarrow> Inr produtos
            | Some m \<Rightarrow> match_step m produtos))"

fun line_loop :: "string list \<Rightarrow> produto list \<Rightarrow> py_error + produto list" where
  "line_loop [] produtos = Inr produtos"
| "line_loop (line # lines) produtos =
     (case line_step line produtos of Inl e \<Rightarrow> Inl e | Inr produtos' \<Rightarrow> line_loop lines produtos')"

text \<open>
  The data frame is the list of its rows. \<open>groupby("nome", as_index=False).agg(...)\<close>
  makes one row for each name, the names in sorted order (code point by code point), with
  the mean of the unit prices and the sums of the quantities and of the values.
\<close>

definition agg_row :: "produto list \<Rightarrow> string \<Rightarrow> produto" where
  "agg_row df k =
     (let g = filter (\<lambda>p. nome p = k) df
      in \<lparr>nome = k, preco_unit = sum_list (map preco_unit g) / of_nat (length g),
          quantidade = sum_list (map quantidade g), valor = sum_list (map valor g)\<rparr>)"

definition groupby_agg :: "produto list \<Rightarrow> produto list" where
  "groupby_agg df = map (agg_row df) (sort (remdups (map nome df)))"

text \<open>
  \<open>sort_values("valor", ascending=False)\<close>: pandas reverses the rows, sorts them upwards
  and reverses the result. The sort is taken to be a stable one here, as the insertion
  sort that the default kind runs on short columns is; the order of equal values in long
  columns is not fixed by the program.
\<close>

definition sort_values_desc :: "produto list \<Rightarrow> produto list" where
  "sort_values_desc df = rev (sort_key valor (rev df))"

definition parse_lince_lines :: "string \<Rightarrow> py_error + produto list" where
  "parse_lince_lines text =
     (let lines = map (\<lambda>line. strip (re_sub spaces2 '' '' line)) (splitlines text)
      in case line_loop lines [] of
           Inl e \<Rightarrow> Inl e
         | Inr produtos \<Rightarrow>
             if produtos = [] then Inr [] else Inr (sort_values_desc (groupby_agg produtos)))"

section \<open>Unfolding rules\<close>

lemmas char_defs = cp_def in_range_def is_space_def is_digit_def is_upper_def is_lower_def
  is_word_def float_space_def is_sign_def is_exp_mark_def dot_def newline_def num_char_def
  letter_def lower_def is_linebreak_def

lemmas float_defs = br_to_float_def strip_def replace_def py_float_def unsigned_def negative_def
  mantissa_def exponent_def scale10_def digits_val_def digit_val_def Let_def

lemmas re_defs = m_end_def group_def re_match_def re_search_def re_sub_def NUM_TOKEN_def

lemmas line_defs = line_step_def match_step_def clean_def patt_def ean_def codigo_def
  letters3_def lixo_def

section \<open>Properties of the Numeric Normalizer\<close>

lemma digit_facts:
  assumes "is_digit c"
  shows "c \<noteq> CHR ''.''" "c \<noteq> CHR '',''" "c \<noteq> CHR ''_''" "\<not> is_space c" "\<not> float_space c"
    "\<not> is_sign c" "\<not> is_exp_mark c" "c \<noteq> CHR ''-''"
  using assms by (auto simp: char_defs)


lemma num_char_facts:
  assumes "num_char c"
  shows "\<not> is_space c" "\<not> float_space c" "\<not> is_exp_mark c" "\<not> is_sign c" "c \<noteq> CHR ''_''"
    "c \<noteq> CHR 0x0A" "\<not> letter c"
  using assms by (auto simp: char_defs)















section \<open>Properties of the matcher\<close>

lemma upt_Suc_Suc: "[0..<Suc (Suc n)] = 0 # map Suc [0..<Suc n]"
proof -
  have "[0..<Suc (Suc n)] = 0 # [Suc 0..<Suc (Suc n)]" by (rule upt_conv_Cons) simp
  also have "[Suc 0..<Suc (Suc n)] = map Suc [0..<Suc n]" by (rule map_Suc_upt [symmetric])
  finally show ?thesis .
qed

lemma runs_upt:
  "runs C pre suf
   = map (\<lambda>k. (pre @ take k suf, drop k suf)) [0..<Suc (length (takeWhile C suf))]"
proof (induction suf arbitrary: pre)
  case Nil
  show ?case by simp
next
  case (Cons c cs)
  show ?case
  proof (cases "C c")
    case True
    have "runs C pre (c # cs) = (pre, c # cs) # runs C (pre @ [c]) cs" using True by simp
    also have "runs C (pre @ [c]) cs
      = map (\<lambda>k. ((pre @ [c]) @ take k cs, drop k cs)) [0..<Suc (length (takeWhile C cs))]"
      by (rule Cons)
    also have "(pre, c # cs) # \<dots>
      = map (\<lambda>k. (pre @ take k (c # cs), drop k (c # cs))) (0 # map Suc [0..<Suc (length (takeWhile C cs))])"
      by (simp add: comp_def del: upt_Suc)
    finally show ?thesis using True by (simp only: upt_Suc_Suc takeWhile.simps if_True length_Cons)
  next
    case False
    then show ?thesis by simp
  qed
qed

lemma take_upt0: "take m [0..<n] = [0..<min m n]"
  by (cases "m \<le> n") (simp_all add: min_def)

lemma set_drop_take_upt:
  "set (drop lo (take m (map f [0..<n]))) = f ` {k. lo \<le> k \<and> k < m \<and> k < n}"
proof -
  have "drop lo (take m (map f [0..<n])) = map f [lo..<min m n]"
    by (simp add: take_map drop_map take_upt0 del: upt_Suc)
  then show ?thesis by auto
qed


lemma set_ms_Rep:
  "set (ms (Rep gr lo hi C) (pre, suf, g))
   = {(pre @ take k suf, drop k suf, g) |k.
        lo \<le> k \<and> k \<le> length (takeWhile C suf) \<and> (\<forall>h. hi = Some h \<longrightarrow> k \<le> h)}"
proof -
  let ?n = "Suc (length (takeWhile C suf))"
  let ?f = "\<lambda>k. (pre @ take k suf, drop k suf)"
  let ?ks = "drop lo (case hi of None \<Rightarrow> runs C pre suf | Some h \<Rightarrow> take (Suc h) (runs C pre suf))"
  have ks: "set ?ks = ?f ` {k. lo \<le> k \<and> k < ?n \<and> (\<forall>h. hi = Some h \<longrightarrow> k \<le> h)}"
  proof (cases hi)
    case None
    have "set (drop lo (runs C pre suf)) = set (drop lo (take ?n (map ?f [0..<?n])))"
      by (simp only: runs_upt) (simp del: upt_Suc)
    then show ?thesis using None by (simp only: set_drop_take_upt option.case) auto
  next
    case (Some h)
    have "set (drop lo (take (Suc h) (runs C pre suf)))
          = ?f ` {k. lo \<le> k \<and> k < Suc h \<and> k < ?n}"
      by (simp only: runs_upt set_drop_take_upt)
    then show ?thesis using Some by (simp only: option.case) auto
  qed
  have "set (ms (Rep gr lo hi C) (pre, suf, g)) = (\<lambda>(p, s). (p, s, g)) ` set ?ks"
    by (simp add: Let_def)
  then show ?thesis unfolding ks by auto
qed

lemma take_takeWhile: "k \<le> length (takeWhile C s) \<Longrightarrow> list_all C (take k s)"
  by (induction s arbitrary: k) (auto simp: take_Cons split: nat.splits if_splits)

lemma Rep_sound:
  assumes "(p', s', g') \<in> set (ms (Rep gr lo hi C) (p, s, g))"
  shows "\<exists>x. p' = p @ x \<and> s = x @ s' \<and> g' = g \<and> list_all C x \<and> lo \<le> length x
              \<and> (\<forall>h. hi = Some h \<longrightarrow> length x \<le> h)"
proof -
  from assms obtain k where k: "p' = p @ take k s" "s' = drop k s" "g' = g" "lo \<le> k"
    "k \<le> length (takeWhile C s)" "\<forall>h. hi = Some h \<longrightarrow> k \<le> h"
    unfolding set_ms_Rep by auto
  have "k \<le> length s" using k(5) length_takeWhile_le [of C s] by simp
  then have "length (take k s) = k" by simp
  then show ?thesis using k take_takeWhile [OF k(5)] by (intro exI [of _ "take k s"]) simp
qed

lemma Grp_sound:
  assumes "(p', s', g') \<in> set (ms (Grp nm r) (p, s, g))"
  shows "\<exists>g''. (p', s', g'') \<in> set (ms r (p, s, g)) \<and> g' = (nm, drop (length p) p') # g''"
  using assms by auto

lemma ms_extends:
  "(p', s', g') \<in> set (ms r (p, s, g)) \<Longrightarrow> \<exists>x h. p' = p @ x \<and> s = x @ s' \<and> g' = h @ g"
proof (induction r arbitrary: p s g p' s' g')
  case Eps
  then show ?case by simp
next
  case (Cls C)
  then show ?case by (cases s) (auto split: if_splits)
next
  case (Rep gr lo hi C)
  from Rep_sound [OF this] show ?case by auto
next
  case (Seq a b)
  then obtain p1 s1 g1 where 1: "(p1, s1, g1) \<in> set (ms a (p, s, g))"
    and 2: "(p', s', g') \<in> set (ms b (p1, s1, g1))" by auto
  from Seq.IH(1) [OF 1] obtain x h where "p1 = p @ x" "s = x @ s1" "g1 = h @ g" by blast
  moreover from Seq.IH(2) [OF 2] obtain y k where "p' = p1 @ y" "s1 = y @ s'" "g' = k @ g1" by blast
  ultimately show ?case by (intro exI [of _ "x @ y"] exI [of _ "k @ h"]) simp
next
  case (Opt r)
  from Opt.prems have "(p', s', g') \<in> set (ms r (p, s, g)) \<or> (p', s', g') = (p, s, g)" by auto
  then show ?case
  proof
    assume "(p', s', g') \<in> set (ms r (p, s, g))"
    then show ?thesis by (rule Opt.IH)
  next
    assume "(p', s', g') = (p, s, g)"
    then show ?thesis by simp
  qed
next
  case (Grp nm r)
  from Grp_sound [OF Grp.prems] obtain g'' where 1: "(p', s', g'') \<in> set (ms r (p, s, g))"
    and g': "g' = (nm, drop (length p) p') # g''" by blast
  from Grp.IH [OF 1] obtain x h where "p' = p @ x" "s = x @ s'" "g'' = h @ g" by blast
  then show ?case using g' by (intro exI [of _ x] exI [of _ "(nm, drop (length p) p') # h"]) simp
next
  case Bol
  then show ?case by (simp split: if_splits)
next
  case (Eol nl)
  then show ?case by (simp split: if_splits)
next
  case (WordB w)
  then show ?case by (simp split: if_splits)
qed








lemma in_ms_WordB:
  "(p', s', g') \<in> set (ms (WordB w) (p, s, g))
   \<longleftrightarrow> p' = p \<and> s' = s \<and> g' = g \<and> ((p \<noteq> [] \<and> w (last p)) \<noteq> (s \<noteq> [] \<and> w (hd s)))"
  by auto

lemma in_ms_Eol:
  "(p', s', g') \<in> set (ms (Eol nl) (p, s, g))
   \<longleftrightarrow> p' = p \<and> s' = s \<and> g' = g \<and> (s = [] \<or> (length s = 1 \<and> nl (hd s)))"
  by auto

lemma WordB_same: "st' \<in> set (ms (WordB w) st) \<Longrightarrow> st' = st"
  by (cases st) (auto split: if_splits)

lemma Eol_same:
  "st' \<in> set (ms (Eol newline) (p, s, g)) \<Longrightarrow> st' = (p, s, g) \<and> (s = [] \<or> s = [CHR 0x0A])"
  by (cases s) (auto simp: newline_def split: if_splits)

lemma in_ms_Seq:
  "m \<in> set (ms (Seq a b) st) \<longleftrightarrow> (\<exists>st'. st' \<in> set (ms a st) \<and> m \<in> set (ms b st'))"
  by auto

lemma Rep_complete:
  assumes "list_all C x" "lo \<le> length x" "\<forall>h. hi = Some h \<longrightarrow> length x \<le> h"
  shows "(p @ x, s, g) \<in> set (ms (Rep gr lo hi C) (p, x @ s, g))"
proof -
  have "takeWhile C (x @ s) = x @ takeWhile C s"
    using assms(1) by (simp add: list_all_iff)
  then have "length x \<le> length (takeWhile C (x @ s))" by simp
  then show ?thesis
    unfolding set_ms_Rep using assms(2,3) by (intro CollectI exI [of _ "length x"]) simp
qed

lemma one_newline: "length s = 1 \<and> newline (hd s) \<longleftrightarrow> s = [CHR 0x0A]"
  by (cases s) (auto simp: newline_def)

lemma is_digit_word: "is_digit c \<Longrightarrow> is_word c"
  by (simp add: is_word_def)

lemma ean_sound:
  assumes "(p', s', g') \<in> set (ms ean (pre, suf, g))"
  shows "\<exists>x. suf = x @ s' \<and> p' = pre @ x \<and> list_all is_digit x \<and> 8 \<le> length x
           \<and> (s' = [] \<or> s' = [CHR 0x0A])"
proof -
  from assms obtain st1 st2 st3 where 1: "st1 \<in> set (ms (WordB is_word) (pre, suf, g))"
    and 2: "st2 \<in> set (ms (Rep True 8 (Some 13) is_digit) st1)"
    and 3: "st3 \<in> set (ms (WordB is_word) st2)"
    and 4: "(p', s', g') \<in> set (ms (Eol newline) st3)"
    unfolding ean_def in_ms_Seq by blast
  from 1 have st1: "st1 = (pre, suf, g)" by (rule WordB_same)
  obtain p2 s2 g2 where st2: "st2 = (p2, s2, g2)" by (cases st2) auto
  from Rep_sound [OF 2 [unfolded st1 st2]] obtain x where x: "p2 = pre @ x" "suf = x @ s2"
    "list_all is_digit x" "8 \<le> length x" by blast
  from 3 have st3: "st3 = (p2, s2, g2)" unfolding st2 by (rule WordB_same)
  from Eol_same [OF 4 [unfolded st3]] have "p' = p2" "s' = s2" "s2 = [] \<or> s2 = [CHR 0x0A]"
    by auto
  then show ?thesis using x by auto
qed

lemma ean_complete:
  assumes "list_all is_digit d" "8 \<le> length d" "length d \<le> 13"
    and "pre = [] \<or> \<not> is_word (last pre)"
  shows "(pre @ d, [], g) \<in> set (ms ean (pre, d, g))"
proof -
  have ne: "d \<noteq> []" using assms(2) by auto
  then have "is_digit (hd d)" "is_digit (last d)" using assms(1) by (simp_all add: list_all_iff)
  then have d: "d \<noteq> []" "is_word (hd d)" "is_word (last d)"
    using ne by (simp_all add: is_digit_word)
  have 1: "(pre, d, g) \<in> set (ms (WordB is_word) (pre, d, g))"
    using assms(4) d by (auto simp: in_ms_WordB)
  have 2: "(pre @ d, [], g) \<in> set (ms (Rep True 8 (Some 13) is_digit) (pre, d, g))"
    using Rep_complete [of is_digit d 8 "Some 13" pre "[]" g True] assms(1-3) by simp
  have 3: "(pre @ d, [], g) \<in> set (ms (WordB is_word) (pre @ d, [], g))"
    using d by (simp add: in_ms_WordB)
  have 4: "(pre @ d, [], g) \<in> set (ms (Eol newline) (pre @ d, [], g))"
    by (simp add: in_ms_Eol)
  show ?thesis unfolding ean_def in_ms_Seq using 1 2 3 4 by blast
qed

lemma codigo_sound:
  assumes "(p', s', g') \<in> set (ms codigo (pre, suf, g))"
  shows "\<exists>x w. suf = x @ w @ s' \<and> p' = pre @ x @ w \<and> list_all is_digit x \<and> 4 \<le> length x
           \<and> list_all is_space w \<and> (s' = [] \<or> s' = [CHR 0x0A])"
proof -
  from assms obtain st1 st2 st3 st4 where 1: "st1 \<in> set (ms (WordB is_word) (pre, suf, g))"
    and 2: "st2 \<in> set (ms (Rep True 4 (Some 8) is_digit) st1)"
    and 3: "st3 \<in> set (ms (WordB is_word) st2)"
    and 4: "st4 \<in> set (ms (Rep True 0 None is_space) st3)"
    and 5: "(p', s', g') \<in> set (ms (Eol newline) st4)"
    unfolding codigo_def in_ms_Seq by blast
  from 1 have st1: "st1 = (pre, suf, g)" by (rule WordB_same)
  obtain p2 s2 g2 where st2: "st2 = (p2, s2, g2)" by (cases st2) auto
  from Rep_sound [OF 2 [unfolded st1 st2]] obtain x where x: "p2 = pre @ x" "suf = x @ s2"
    "list_all is_digit x" "4 \<le> length x" by blast
  from 3 have st3: "st3 = (p2, s2, g2)" unfolding st2 by (rule WordB_same)
  obtain p4 s4 g4 where st4: "st4 = (p4, s4, g4)" by (cases st4) auto
  from Rep_sound [OF 4 [unfolded st3 st4]] obtain w where w: "p4 = p2 @ w" "s2 = w @ s4"
    "list_all is_space w" by blast
  from Eol_same [OF 5 [unfolded st4]] have "p' = p4" "s' = s4" "s4 = [] \<or> s4 = [CHR 0x0A]"
    by auto
  then show ?thesis using x w by auto
qed

lemma codigo_complete:
  assumes "list_all is_digit d" "4 \<le> length d" "length d \<le> 8"
    and "pre = [] \<or> \<not> is_word (last pre)"
  shows "(pre @ d, [], g) \<in> set (ms codigo (pre, d, g))"
proof -
  have ne: "d \<noteq> []" using assms(2) by auto
  then have "is_digit (hd d)" "is_digit (last d)" using assms(1) by (simp_all add: list_all_iff)
  then have d: "d \<noteq> []" "is_word (hd d)" "is_word (last d)"
    using ne by (simp_all add: is_digit_word)
  have 1: "(pre, d, g) \<in> set (ms (WordB is_word) (pre, d, g))"
    using assms(4) d by (auto simp: in_ms_WordB)
  have 2: "(pre @ d, [], g) \<in> set (ms (Rep True 4 (Some 8) is_digit) (pre, d, g))"
    using Rep_complete [of is_digit d 4 "Some 8" pre "[]" g True] assms(1-3) by simp
  have 3: "(pre @ d, [], g) \<in> set (ms (WordB is_word) (pre @ d, [], g))"
    using d by (simp add: in_ms_WordB)
  have 4: "(pre @ d, [], g) \<in> set (ms (Rep True 0 None is_space) (pre @ d, [], g))"
    using Rep_complete [of is_space "[]" 0 None "pre @ d" "[]" g True] by simp
  have 5: "(pre @ d, [], g) \<in> set (ms (Eol newline) (pre @ d, [], g))"
    by (simp add: in_ms_Eol)
  show ?thesis unfolding codigo_def in_ms_Seq using 1 2 3 4 5 by blast
qed

text \<open>The substitutions on a line that ends with a field of digits.\<close>

lemma sub_skip: "sub_from r repl pre (y @ z) (length y) = sub_from r repl (pre @ y) z 0"
proof (induction y arbitrary: pre)
  case Nil
  show ?case by simp
next
  case (Cons c y)
  show ?case using Cons [of "pre @ [c]"] by simp
qed

lemma sub_no_match:
  "(\<And>i. i \<le> length x \<Longrightarrow> ms r (pre @ take i x, drop i x, []) = [])
   \<Longrightarrow> sub_from r repl pre x 0 = x"
proof (induction x arbitrary: pre)
  case Nil
  from Nil [of 0] show ?case by simp
next
  case (Cons c x)
  from Cons.prems [of 0] have 0: "ms r (pre, c # x, []) = []" by simp
  have "sub_from r repl (pre @ [c]) x 0 = x"
  proof (rule Cons.IH)
    fix i assume "i \<le> length x"
    then show "ms r ((pre @ [c]) @ take i x, drop i x, []) = []"
      using Cons.prems [of "Suc i"] by simp
  qed
  then show ?case using 0 by simp
qed

lemma sub_match_tail:
  assumes "\<And>i. i < length x \<Longrightarrow> ms r (pre @ take i x, drop i x @ y, []) = []"
    and "ms r (pre @ x, y, []) = m # rest" and "fst m = pre @ x @ y" and "y \<noteq> []"
    and "ms r (pre @ x @ y, [], []) = []"
  shows "sub_from r repl pre (x @ y) 0 = x @ repl"
  using assms
proof (induction x arbitrary: pre)
  case Nil
  from Nil(4) obtain c cs where y: "y = c # cs" by (cases y) auto
  have e: "m_end m = length pre + Suc (length cs)" using Nil(3) by (simp add: m_end_def y)
  have "sub_from r repl (pre @ [c]) cs (length cs) = sub_from r repl ((pre @ [c]) @ cs) [] 0"
    using sub_skip [of r repl "pre @ [c]" cs "[]"] by simp
  also have "\<dots> = []" using Nil(5) by (simp add: y)
  finally show ?case using Nil(2) e by (simp add: y)
next
  case (Cons c x)
  from Cons.prems(1) [of 0] have 0: "ms r (pre, c # x @ y, []) = []" by simp
  have "sub_from r repl (pre @ [c]) (x @ y) 0 = x @ repl"
  proof (rule Cons.IH)
    fix i assume "i < length x"
    then show "ms r ((pre @ [c]) @ take i x, drop i x @ y, []) = []"
      using Cons.prems(1) [of "Suc i"] by simp
  next
    show "ms r ((pre @ [c]) @ x, y, []) = m # rest" using Cons.prems(2) by simp
    show "fst m = (pre @ [c]) @ x @ y" using Cons.prems(3) by simp
    show "y \<noteq> []" by (rule Cons.prems(4))
    show "ms r ((pre @ [c]) @ x @ y, [], []) = []" using Cons.prems(5) by simp
  qed
  then show ?case using 0 by simp
qed

lemma empty_ms: "(\<And>m. m \<in> set (ms r st) \<Longrightarrow> False) \<Longrightarrow> ms r st = []"
  by (cases "ms r st") auto

lemma digit_not_space: "is_digit c \<Longrightarrow> \<not> is_space c"
  by (rule digit_facts)

lemma newline_space: "is_space (CHR 0x0A)"
  by (simp add: char_defs)

lemma space_facts: "\<not> is_digit (CHR '' '')" "\<not> is_word (CHR '' '')" "is_space (CHR '' '')"
  "\<not> num_char (CHR '' '')"
  by (simp_all add: char_defs)

text \<open>A run of digits at the end of a text that holds a character that is no digit.\<close>

lemma digits_end:
  assumes "u @ c # d = v @ x" "list_all is_digit x" "\<not> is_digit c"
  shows "\<exists>us. d = us @ x \<and> v = u @ c # us"
proof -
  from assms(1) have "(u @ [c]) @ d = v @ x" by simp
  then obtain us where "(u @ [c] = v @ us \<and> us @ d = x) \<or> ((u @ [c]) @ us = v \<and> d = us @ x)"
    unfolding append_eq_append_conv2 by blast
  then show ?thesis
  proof
    assume a: "u @ [c] = v @ us \<and> us @ d = x"
    show ?thesis
    proof (cases "us = []")
      case True
      then show ?thesis using a by auto
    next
      case False
      then have "last us = c" using a by (metis last_appendR last_snoc)
      then have "c \<in> set x" using a False by (metis last_in_set set_append UnI1)
      then show ?thesis using assms(2,3) by (auto simp: list_all_iff)
    qed
  next
    assume "(u @ [c]) @ us = v \<and> d = us @ x"
    then show ?thesis by auto
  qed
qed

lemma first_of: "st \<in> set (ms r s0) \<Longrightarrow> \<exists>m rest. ms r s0 = m # rest"
  by (cases "ms r s0") auto

lemma digit_not_newline: "is_digit (CHR 0x0A) \<Longrightarrow> False"
  by (simp add: char_defs)

lemma ean_no_match_before:
  assumes "list_all is_digit d" "d \<noteq> []" "\<not> is_digit c"
  shows "ms ean (pre, u @ c # d, []) = []"
proof (rule empty_ms)
  fix m assume m: "m \<in> set (ms ean (pre, u @ c # d, []))"
  obtain p' s' g' where "m = (p', s', g')" by (cases m) auto
  with ean_sound m obtain x where x: "u @ c # d = x @ s'" "list_all is_digit x"
    "s' = [] \<or> s' = [CHR 0x0A]" by blast
  from x(3) show False
  proof
    assume "s' = []"
    then have "u @ c # d = [] @ x" using x(1) by simp
    from digits_end [OF this x(2) assms(3)] show False by simp
  next
    assume "s' = [CHR 0x0A]"
    then have "last (u @ c # d) = CHR 0x0A" using x(1) by simp
    then have "last d = CHR 0x0A" using assms(2) by simp
    moreover have "is_digit (last d)" using assms(1,2) by (simp add: list_all_iff)
    ultimately show False using digit_not_newline by simp
  qed
qed

lemma ean_needs_8: "length suf < 8 \<Longrightarrow> ms ean (pre, suf, g) = []"
proof (rule empty_ms)
  fix m assume l: "length suf < 8" and m: "m \<in> set (ms ean (pre, suf, g))"
  obtain p' s' g' where "m = (p', s', g')" by (cases m) auto
  with ean_sound m obtain x where "suf = x @ s'" "8 \<le> length x" by blast
  then show False using l by simp
qed

lemma ean_sub_digits: "length d < 8 \<Longrightarrow> sub_from ean [] pre d 0 = d"
  by (rule sub_no_match) (simp add: ean_needs_8)

lemma ean_sub_short:
  assumes "list_all is_digit d" "d \<noteq> []" "length d < 8" "\<not> is_digit c"
  shows "sub_from ean [] pre (u @ c # d) 0 = u @ c # d"
proof (induction u arbitrary: pre)
  case Nil
  show ?case
    using ean_no_match_before [OF assms(1,2,4), of pre "[]"] ean_sub_digits [OF assms(3)]
    by simp
next
  case (Cons a u)
  show ?case
    using ean_no_match_before [OF assms(1,2,4), of pre "a # u"] Cons by simp
qed

lemma drop_snoc: "i < length (u @ [c]) \<Longrightarrow> drop i (u @ [c]) = drop i u @ [c]"
  by simp

lemma ean_sub_long:
  assumes "list_all is_digit d" "8 \<le> length d" "length d \<le> 13" "\<not> is_digit c" "\<not> is_word c"
  shows "re_sub ean [] (u @ c # d) = u @ [c]"
proof -
  have ne: "d \<noteq> []" using assms(2) by auto
  have 1: "ms ean ([] @ take i (u @ [c]), drop i (u @ [c]) @ d, []) = []"
    if "i < length (u @ [c])" for i
  proof -
    from that have "drop i (u @ [c]) @ d = drop i u @ c # d" by simp
    then show ?thesis using ean_no_match_before [OF assms(1) ne assms(4)] by simp
  qed
  have "((u @ [c]) @ d, [], []) \<in> set (ms ean (u @ [c], d, []))"
    using ean_complete [OF assms(1-3), of "u @ [c]" "[]"] assms(5) by simp
  then obtain m rest where mr: "ms ean (u @ [c], d, []) = m # rest"
    using first_of by blast
  obtain p' s' g' where m: "m = (p', s', g')" by (cases m) auto
  have "m \<in> set (ms ean (u @ [c], d, []))" using mr by simp
  with ean_sound m obtain x where x: "d = x @ s'" "p' = (u @ [c]) @ x"
    "s' = [] \<or> s' = [CHR 0x0A]" by blast
  have "s' = []"
  proof (rule ccontr)
    assume "s' \<noteq> []"
    then have "CHR 0x0A \<in> set d" using x(1,3) by auto
    then show False using assms(1) digit_not_newline by (auto simp: list_all_iff)
  qed
  then have fm: "fst m = [] @ (u @ [c]) @ d" using x m by simp
  have mr': "ms ean ([] @ (u @ [c]), d, []) = m # rest" using mr by simp
  have 5: "ms ean ([] @ (u @ [c]) @ d, [], []) = []" by (simp add: ean_needs_8)
  from sub_match_tail [of "u @ [c]" ean "[]" d m rest "[]", OF 1 mr' fm ne 5]
  show ?thesis by (simp add: re_sub_def)
qed

lemma codigo_no_match_before:
  assumes "list_all is_digit d" "d \<noteq> []" "\<not> is_digit c"
  shows "ms codigo (pre, u @ c # d, []) = []"
proof (rule empty_ms)
  fix m assume m: "m \<in> set (ms codigo (pre, u @ c # d, []))"
  obtain p' s' g' where "m = (p', s', g')" by (cases m) auto
  with m have "(p', s', g') \<in> set (ms codigo (pre, u @ c # d, []))" by simp
  from codigo_sound [OF this] obtain x w where x: "u @ c # d = x @ w @ s'" "list_all is_digit x"
    "list_all is_space w" "s' = [] \<or> s' = [CHR 0x0A]" by blast
  have ld: "is_digit (last d)" "last (u @ c # d) = last d"
    using assms(1,2) by (simp_all add: list_all_iff)
  from x(4) show False
  proof
    assume s': "s' = []"
    have "w = []"
    proof (rule ccontr)
      assume "w \<noteq> []"
      then have "last (u @ c # d) = last w" using x(1) s' by simp
      moreover have "is_space (last w)" using x(3) \<open>w \<noteq> []\<close> by (simp add: list_all_iff)
      ultimately have "is_space (last d)" using ld(2) by simp
      then show False using ld(1) digit_not_space by blast
    qed
    then have "u @ c # d = [] @ x" using x(1) s' by simp
    from digits_end [OF this x(2) assms(3)] show False by simp
  next
    assume "s' = [CHR 0x0A]"
    then have "last (u @ c # d) = CHR 0x0A" using x(1) by simp
    then show False using ld digit_not_newline by simp
  qed
qed

lemma codigo_needs_4: "length suf < 4 \<Longrightarrow> ms codigo (pre, suf, g) = []"
proof (rule empty_ms)
  fix m assume l: "length suf < 4" and m: "m \<in> set (ms codigo (pre, suf, g))"
  obtain p' s' g' where "m = (p', s', g')" by (cases m) auto
  with m have "(p', s', g') \<in> set (ms codigo (pre, suf, g))" by simp
  from codigo_sound [OF this] obtain x w where "suf = x @ w @ s'" "4 \<le> length x" by blast
  then show False using l by simp
qed

lemma codigo_sub_field:
  assumes "list_all is_digit d" "4 \<le> length d" "length d \<le> 8" "\<not> is_digit c" "\<not> is_word c"
  shows "re_sub codigo [] (u @ c # d) = u @ [c]"
proof -
  have ne: "d \<noteq> []" using assms(2) by auto
  have 1: "ms codigo ([] @ take i (u @ [c]), drop i (u @ [c]) @ d, []) = []"
    if "i < length (u @ [c])" for i
  proof -
    from that have "drop i (u @ [c]) @ d = drop i u @ c # d" by simp
    then show ?thesis using codigo_no_match_before [OF assms(1) ne assms(4)] by simp
  qed
  have "((u @ [c]) @ d, [], []) \<in> set (ms codigo (u @ [c], d, []))"
    using codigo_complete [OF assms(1-3), of "u @ [c]" "[]"] assms(5) by simp
  then obtain m rest where mr: "ms codigo (u @ [c], d, []) = m # rest"
    using first_of by blast
  obtain p' s' g' where m: "m = (p', s', g')" by (cases m) auto
  have "(p', s', g') \<in> set (ms codigo (u @ [c], d, []))" using mr m by simp
  from codigo_sound [OF this] obtain x w where x: "d = x @ w @ s'" "p' = (u @ [c]) @ x @ w"
    "s' = [] \<or> s' = [CHR 0x0A]" by blast
  have "s' = []"
  proof (rule ccontr)
    assume "s' \<noteq> []"
    then have "CHR 0x0A \<in> set d" using x(1,3) by auto
    then show False using assms(1) digit_not_newline by (auto simp: list_all_iff)
  qed
  then have fm: "fst m = [] @ (u @ [c]) @ d" using x m by simp
  have mr': "ms codigo ([] @ (u @ [c]), d, []) = m # rest" using mr by simp
  have 5: "ms codigo ([] @ (u @ [c]) @ d, [], []) = []" by (simp add: codigo_needs_4)
  from sub_match_tail [of "u @ [c]" codigo "[]" d m rest "[]", OF 1 mr' fm ne 5]
  show ?thesis by (simp add: re_sub_def)
qed

lemma codigo_sub_shape:
  "suf = [] \<or> \<not> is_space (last suf) \<Longrightarrow>
   sub_from codigo [] pre suf 0 = suf
   \<or> (\<exists>y x. suf = y @ x \<and> x \<noteq> [] \<and> list_all is_digit x \<and> sub_from codigo [] pre suf 0 = y)"
proof (induction suf arbitrary: pre)
  case Nil
  show ?case by (simp add: codigo_needs_4)
next
  case (Cons c cs)
  have l: "\<not> is_space (last (c # cs))" using Cons.prems by simp
  show ?case
  proof (cases "ms codigo (pre, c # cs, [])")
    case Nil
    have "cs = [] \<or> \<not> is_space (last cs)" using l by auto
    from Cons.IH [OF this, of "pre @ [c]"] show ?thesis
    proof
      assume "sub_from codigo [] (pre @ [c]) cs 0 = cs"
      then show ?thesis using Nil by simp
    next
      assume "\<exists>y x. cs = y @ x \<and> x \<noteq> [] \<and> list_all is_digit x
                \<and> sub_from codigo [] (pre @ [c]) cs 0 = y"
      then obtain y x where "cs = y @ x" "x \<noteq> []" "list_all is_digit x"
        "sub_from codigo [] (pre @ [c]) cs 0 = y" by blast
      then have "c # cs = (c # y) @ x \<and> x \<noteq> [] \<and> list_all is_digit x
                 \<and> sub_from codigo [] pre (c # cs) 0 = c # y"
        using Nil by simp
      then show ?thesis by blast
    qed
  next
    case (Cons m rest)
    obtain p' s' g' where m: "m = (p', s', g')" by (cases m) auto
    have "(p', s', g') \<in> set (ms codigo (pre, c # cs, []))" using Cons m by simp
    from codigo_sound [OF this] obtain x w where x: "c # cs = x @ w @ s'" "p' = pre @ x @ w"
      "list_all is_digit x" "4 \<le> length x" "list_all is_space w" "s' = [] \<or> s' = [CHR 0x0A]"
      by blast
    have s': "s' = []"
    proof (rule ccontr)
      assume "s' \<noteq> []"
      then have "last (c # cs) = CHR 0x0A" using x(1,6) by (simp del: last.simps)
      then show False using l newline_space by simp
    qed
    have w: "w = []"
    proof (rule ccontr)
      assume "w \<noteq> []"
      then have "last (c # cs) = last w" using x(1) s' by (simp del: last.simps)
      moreover have "is_space (last w)" using x(5) \<open>w \<noteq> []\<close> by (simp add: list_all_iff)
      ultimately show False using l by simp
    qed
    have cx: "c # cs = x" using x(1) s' w by simp
    then have e: "m_end m = length pre + Suc (length cs)"
      using x(2) w m by (simp add: m_end_def) (metis length_Cons)
    have "sub_from codigo [] (pre @ [c]) cs (length cs) = sub_from codigo [] ((pre @ [c]) @ cs) [] 0"
      using sub_skip [of codigo "[]" "pre @ [c]" cs "[]"] by simp
    also have "\<dots> = []" by (simp add: codigo_needs_4)
    finally have "sub_from codigo [] pre (c # cs) 0 = []" using Cons e by simp
    then have "c # cs = [] @ x \<and> x \<noteq> [] \<and> list_all is_digit x
               \<and> sub_from codigo [] pre (c # cs) 0 = []"
      using cx x(3) by auto
    then show ?thesis by blast
  qed
qed

lemma dropWhile_hd: "xs = [] \<or> \<not> P (hd xs) \<Longrightarrow> dropWhile P xs = xs"
  by (cases xs) auto

lemma strip_id:
  assumes "s = [] \<or> (\<not> is_space (hd s) \<and> \<not> is_space (last s))"
  shows "strip s = s"
proof -
  have 1: "dropWhile is_space s = s" using assms by (intro dropWhile_hd) auto
  have "rev s = [] \<or> \<not> is_space (hd (rev s))" using assms by (auto simp: hd_rev)
  then have "dropWhile is_space (rev s) = rev s" by (rule dropWhile_hd)
  then show ?thesis by (simp add: strip_def 1)
qed

lemma strip_snoc_space:
  assumes "s \<noteq> []" "\<not> is_space (hd s)" "\<not> is_space (last s)" "is_space c"
  shows "strip (s @ [c]) = s"
proof -
  have 1: "dropWhile is_space (s @ [c]) = s @ [c]" using assms(1,2) by (intro dropWhile_hd) simp
  have "rev s = [] \<or> \<not> is_space (hd (rev s))" using assms(1,3) by (simp add: hd_rev)
  then have "dropWhile is_space (rev s) = rev s" by (rule dropWhile_hd)
  then show ?thesis using assms(4) by (simp add: strip_def 1)
qed

lemma num_not_space: "num_char c \<Longrightarrow> \<not> is_space c"
  by (rule num_char_facts)

lemma clean_short:
  assumes U: "U \<noteq> []" "\<not> is_space (hd U)" "\<not> is_space (last U)"
    and d: "list_all is_digit d" "4 \<le> length d" "length d < 8"
  shows "clean (U @ CHR '' '' # d) = U"
proof -
  have dne: "d \<noteq> []" using d(2) by auto
  have le: "length d \<le> 8" using d(3) by simp
  have 1: "re_sub ean [] (U @ CHR '' '' # d) = U @ CHR '' '' # d"
    unfolding re_sub_def using d(1) dne d(3) space_facts(1) by (rule ean_sub_short)
  have "\<not> is_space (last d)" using d(1) dne by (simp add: list_all_iff digit_not_space)
  then have "\<not> is_space (last (U @ CHR '' '' # d))" using dne by simp
  moreover have "\<not> is_space (hd (U @ CHR '' '' # d))" using U(1,2) by simp
  ultimately have 2: "strip (U @ CHR '' '' # d) = U @ CHR '' '' # d"
    by (intro strip_id) blast
  have 3: "re_sub codigo [] (U @ CHR '' '' # d) = U @ [CHR '' '']"
    using d(1,2) le space_facts(1,2) by (rule codigo_sub_field)
  have 4: "strip (U @ [CHR '' '']) = U"
    using U space_facts(3) by (rule strip_snoc_space)
  show ?thesis by (simp only: clean_def Let_def 1 2 3 4)
qed

lemma clean_long:
  assumes U: "U \<noteq> []" "\<not> is_space (hd U)" "\<not> is_space (last U)"
    and d: "list_all is_digit d" "8 \<le> length d" "length d \<le> 13"
  shows "clean (U @ CHR '' '' # d) = strip (re_sub codigo [] U)"
proof -
  have 1: "re_sub ean [] (U @ CHR '' '' # d) = U @ [CHR '' '']"
    using d space_facts(1,2) by (rule ean_sub_long)
  have 4: "strip (U @ [CHR '' '']) = U"
    using U space_facts(3) by (rule strip_snoc_space)
  show ?thesis by (simp only: clean_def Let_def 1 4)
qed

lemma codigo_on_fields:
  assumes B: "B \<noteq> []" "\<not> is_space (hd B)" "\<not> is_space (last B)"
    and Q: "Q \<noteq> []" "list_all num_char Q"
  shows "strip (re_sub codigo [] (B @ CHR '' '' # Q)) = B @ CHR '' '' # Q
         \<or> (\<exists>Q' x. Q = Q' @ x \<and> list_all is_digit x
              \<and> strip (re_sub codigo [] (B @ CHR '' '' # Q)) = (if Q' = [] then B else B @ CHR '' '' # Q'))"
proof -
  let ?U = "B @ CHR '' '' # Q"
  have lastQ: "\<not> is_space (last Q)" using Q by (simp add: list_all_iff num_not_space)
  have U: "?U \<noteq> []" "\<not> is_space (hd ?U)" "\<not> is_space (last ?U)"
    using B Q(1) lastQ by simp_all
  have stripU: "strip ?U = ?U" using U by (intro strip_id) blast
  have "?U = [] \<or> \<not> is_space (last ?U)" using U(3) by blast
  from codigo_sub_shape [OF this, of "[]"]
  have "re_sub codigo [] ?U = ?U
    \<or> (\<exists>y x. ?U = y @ x \<and> x \<noteq> [] \<and> list_all is_digit x \<and> re_sub codigo [] ?U = y)"
    by (simp only: re_sub_def)
  then show ?thesis
  proof
    assume "re_sub codigo [] ?U = ?U"
    then show ?thesis by (simp only: stripU) simp
  next
    assume "\<exists>y x. ?U = y @ x \<and> x \<noteq> [] \<and> list_all is_digit x \<and> re_sub codigo [] ?U = y"
    then obtain y x where yx: "?U = y @ x" "list_all is_digit x" and r: "re_sub codigo [] ?U = y"
      by blast
    from digits_end [OF yx space_facts(1)] obtain us
      where us: "Q = us @ x" "y = B @ CHR '' '' # us" by blast
    have "strip y = (if us = [] then B else B @ CHR '' '' # us)"
    proof (cases "us = []")
      case True
      have "strip (B @ [CHR '' '']) = B" using B space_facts(3) by (rule strip_snoc_space)
      then show ?thesis using True us(2) by simp
    next
      case False
      have "last us \<in> set Q" unfolding us(1) using False by simp
      then have "\<not> is_space (last us)" using Q(2) by (simp add: list_all_iff num_not_space)
      then have "\<not> is_space (last y)" unfolding us(2) using False by simp
      moreover have "\<not> is_space (hd y)" unfolding us(2) using B(1,2) by simp
      ultimately have "strip y = y" by (intro strip_id) blast
      then show ?thesis using False us(2) by simp
    qed
    then have "Q = us @ x \<and> list_all is_digit x
       \<and> strip (re_sub codigo [] ?U) = (if us = [] then B else B @ CHR '' '' # us)"
      unfolding r using us(1) yx(2) by blast
    then show ?thesis by blast
  qed
qed

lemma Bol_same: "st' \<in> set (ms Bol st) \<Longrightarrow> st' = st"
  by (cases st) (auto split: if_splits)

lemma patt_sound:
  assumes "m \<in> set (ms patt ([], s, []))"
  shows "\<exists>nm w1 p w2 q w3 rest. s = nm @ w1 @ p @ w2 @ q @ w3 @ rest
           \<and> w1 \<noteq> [] \<and> list_all is_space w1 \<and> p \<noteq> [] \<and> list_all num_char p
           \<and> w2 \<noteq> [] \<and> list_all is_space w2 \<and> w3 \<noteq> [] \<and> list_all is_space w3"
proof -
  define tail where "tail = Seq (Grp ''valor'' NUM_TOKEN)
             (Seq (Opt (Grp ''5'' (Seq (Rep True 1 None is_space) (Rep True 1 None dot))))
               (Eol newline))"
  have patt: "patt = Seq Bol (Seq (Grp ''nome'' (Rep False 1 None dot))
       (Seq (Rep True 1 None is_space) (Seq (Grp ''preco'' (Rep True 1 None num_char))
         (Seq (Rep True 1 None is_space) (Seq (Grp ''qtd'' (Rep True 1 None num_char))
           (Seq (Rep True 1 None is_space) tail))))))"
    by (simp add: patt_def tail_def NUM_TOKEN_def)
  from assms obtain st1 st2 st3 st4 st5 st6 st7 where
    1: "st1 \<in> set (ms Bol ([], s, []))"
    and 2: "st2 \<in> set (ms (Grp ''nome'' (Rep False 1 None dot)) st1)"
    and 3: "st3 \<in> set (ms (Rep True 1 None is_space) st2)"
    and 4: "st4 \<in> set (ms (Grp ''preco'' (Rep True 1 None num_char)) st3)"
    and 5: "st5 \<in> set (ms (Rep True 1 None is_space) st4)"
    and 6: "st6 \<in> set (ms (Grp ''qtd'' (Rep True 1 None num_char)) st5)"
    and 7: "st7 \<in> set (ms (Rep True 1 None is_space) st6)"
    unfolding patt in_ms_Seq by blast
  from 1 have st1: "st1 = ([], s, [])" by (rule Bol_same)
  obtain p2 s2 g2 where st2: "st2 = (p2, s2, g2)" by (cases st2) auto
  obtain p3 s3 g3 where st3: "st3 = (p3, s3, g3)" by (cases st3) auto
  obtain p4 s4 g4 where st4: "st4 = (p4, s4, g4)" by (cases st4) auto
  obtain p5 s5 g5 where st5: "st5 = (p5, s5, g5)" by (cases st5) auto
  obtain p6 s6 g6 where st6: "st6 = (p6, s6, g6)" by (cases st6) auto
  obtain p7 s7 g7 where st7: "st7 = (p7, s7, g7)" by (cases st7) auto
  from ms_extends [OF 2 [unfolded st1 st2]] obtain nm where n: "s = nm @ s2" by blast
  from Rep_sound [OF 3 [unfolded st2 st3]] obtain w1
    where w1: "s2 = w1 @ s3" "list_all is_space w1" "1 \<le> length w1" by blast
  from Grp_sound [OF 4 [unfolded st3 st4]] obtain g4'
    where "(p4, s4, g4') \<in> set (ms (Rep True 1 None num_char) (p3, s3, g3))" by blast
  from Rep_sound [OF this] obtain p
    where p: "s3 = p @ s4" "list_all num_char p" "1 \<le> length p" by blast
  from Rep_sound [OF 5 [unfolded st4 st5]] obtain w2
    where w2: "s4 = w2 @ s5" "list_all is_space w2" "1 \<le> length w2" by blast
  from ms_extends [OF 6 [unfolded st5 st6]] obtain q where q: "s5 = q @ s6" by blast
  from Rep_sound [OF 7 [unfolded st6 st7]] obtain w3
    where w3: "s6 = w3 @ s7" "list_all is_space w3" "1 \<le> length w3" by blast
  have "s = nm @ w1 @ p @ w2 @ q @ w3 @ s7"
    by (simp only: n w1(1) p(1) w2(1) q w3(1))
  moreover have "w1 \<noteq> []" "p \<noteq> []" "w2 \<noteq> []" "w3 \<noteq> []"
    using w1(3) p(3) w2(3) w3(3) by auto
  ultimately show ?thesis using w1(2) p(2) w2(2) w3(2) by blast
qed

lemma count_spaces: "list_all is_space w \<Longrightarrow> length (filter is_space w) = length w"
  by (simp add: list_all_iff)

lemma count_num: "list_all num_char t \<Longrightarrow> filter is_space t = []"
  by (simp add: list_all_iff num_not_space)

lemma no_three_fields:
  assumes hb: "\<And>a c t b. name = a @ c # t @ b \<Longrightarrow> is_space c \<Longrightarrow> t \<noteq> [] \<Longrightarrow> list_all num_char t
                 \<Longrightarrow> b \<noteq> [] \<and> \<not> is_space (hd b)"
    and P: "list_all num_char P"
    and R: "R = [] \<or> (\<exists>Q'. R = CHR '' '' # Q' \<and> list_all num_char Q')"
    and dec: "name @ CHR '' '' # P @ R = nm @ w1 @ p @ w2 @ q @ w3 @ rest"
    and w1: "w1 \<noteq> []" "list_all is_space w1"
    and p: "p \<noteq> []" "list_all num_char p"
    and w2: "w2 \<noteq> []" "list_all is_space w2"
    and w3: "w3 \<noteq> []" "list_all is_space w3"
  shows False
proof -
  let ?n = "\<lambda>t. length (filter is_space t)"
  let ?W = "w2 @ q @ w3 @ rest"
  let ?T = "p @ ?W"
  have nR: "?n R \<le> 1" using R by (auto simp: count_num)
  have nPR: "?n (P @ R) \<le> 1" using nR by (simp add: count_num [OF P])
  have "1 \<le> length w2" "1 \<le> length w3" using w2(1) w3(1) by (simp_all add: Suc_le_eq)
  then have nW: "2 \<le> ?n ?W" by (simp add: count_spaces [OF w2(2)] count_spaces [OF w3(2)])
  then have nT: "2 \<le> ?n ?T" by simp
  have hdW: "is_space (hd ?W)" using w2 by (cases w2) simp_all
  obtain w1' c where w1': "w1 = w1' @ [c]" using w1(1) by (cases w1 rule: rev_cases) auto
  then have c: "is_space c" using w1(2) by simp
  have "(nm @ w1') @ (c # ?T) = name @ (CHR '' '' # P @ R)"
    using dec by (simp add: w1')
  then obtain us where "(nm @ w1' = name @ us \<and> us @ c # ?T = CHR '' '' # P @ R)
      \<or> ((nm @ w1') @ us = name \<and> c # ?T = us @ CHR '' '' # P @ R)"
    unfolding append_eq_append_conv2 by blast
  then show False
  proof
    assume "nm @ w1' = name @ us \<and> us @ c # ?T = CHR '' '' # P @ R"
    then have "?n (us @ c # ?T) = ?n (CHR '' '' # P @ R)" by simp
    moreover have "?n (CHR '' '' # P @ R) \<le> 2" using nPR by simp
    moreover have "3 \<le> ?n (us @ c # ?T)" using nT c by simp
    ultimately show False by simp
  next
    assume a: "(nm @ w1') @ us = name \<and> c # ?T = us @ CHR '' '' # P @ R"
    show False
    proof (cases us)
      case Nil
      then have "?T = P @ R" using a by simp
      then show False using nT nPR by simp
    next
      case (Cons c' us')
      then have T: "p @ ?W = us' @ (CHR '' '' # P @ R)" and nm: "name = (nm @ w1') @ c # us'"
        using a by auto
      from T obtain vs where "(p = us' @ vs \<and> vs @ ?W = CHR '' '' # P @ R)
          \<or> (p @ vs = us' \<and> ?W = vs @ CHR '' '' # P @ R)"
        unfolding append_eq_append_conv2 by blast
      then show False
      proof
        assume b: "p = us' @ vs \<and> vs @ ?W = CHR '' '' # P @ R"
        show False
        proof (cases vs)
          case Nil
          then have "name = (nm @ w1') @ c # p @ []" using nm b by simp
          from hb [OF this c p] show False by simp
        next
          case (Cons v vs')
          then have "v = CHR '' ''" using b by simp
          then have "CHR '' '' \<in> set p" using b Cons by simp
          then show False using p(2) space_facts(4) by (auto simp: list_all_iff)
        qed
      next
        assume b: "p @ vs = us' \<and> ?W = vs @ CHR '' '' # P @ R"
        then have "name = (nm @ w1') @ c # p @ vs" using nm by simp
        from hb [OF this c p] have "vs \<noteq> []" "\<not> is_space (hd vs)" by simp_all
        moreover have "hd ?W = hd vs" using b \<open>vs \<noteq> []\<close> by (cases vs) simp_all
        ultimately show False using hdW by simp
      qed
    qed
  qed
qed

lemma patt_no_match:
  assumes hb: "\<forall>a c t b. name = a @ c # t @ b \<and> is_space c \<and> t \<noteq> [] \<and> list_all num_char t
                 \<longrightarrow> b \<noteq> [] \<and> \<not> is_space (hd b)"
    and P: "list_all num_char P"
    and R: "R = [] \<or> (\<exists>Q'. R = CHR '' '' # Q' \<and> list_all num_char Q')"
  shows "re_match patt (name @ CHR '' '' # P @ R) = None"
proof -
  have "ms patt ([], name @ CHR '' '' # P @ R, []) = []"
  proof (rule empty_ms)
    fix m assume "m \<in> set (ms patt ([], name @ CHR '' '' # P @ R, []))"
    from patt_sound [OF this] obtain nm w1 p w2 q w3 rest where
      dec: "name @ CHR '' '' # P @ R = nm @ w1 @ p @ w2 @ q @ w3 @ rest"
      and f: "w1 \<noteq> []" "list_all is_space w1" "p \<noteq> []" "list_all num_char p"
        "w2 \<noteq> []" "list_all is_space w2" "w3 \<noteq> []" "list_all is_space w3"
      by blast
    have hb': "b \<noteq> [] \<and> \<not> is_space (hd b)"
      if "name = a @ c # t @ b" "is_space c" "t \<noteq> []" "list_all num_char t" for a c t b
      using hb that by blast
    from no_three_fields [of name P R nm w1 p w2 q w3 rest, OF hb' P R dec f]
    show False .
  qed
  then show ?thesis by (simp add: re_match_def)
qed

section \<open>Properties of the Aggregator\<close>

lemma nome_agg_row: "nome (agg_row df k) = k"
  by (simp add: agg_row_def Let_def)

lemma nomes_groupby_agg: "map nome (groupby_agg df) = sort (remdups (map nome df))"
  by (simp add: groupby_agg_def comp_def nome_agg_row)

lemma distinct_groupby_agg: "distinct (map nome (groupby_agg df))"
  by (simp add: nomes_groupby_agg)

lemma mset_sort_values_desc: "mset (sort_values_desc df) = mset df"
  by (simp add: sort_values_desc_def)

lemma distinct_sort_values_desc:
  "distinct (map nome (sort_values_desc df)) = distinct (map nome df)"
proof -
  have "mset (map nome (sort_values_desc df)) = mset (map nome df)"
    by (simp add: mset_sort_values_desc)
  then show ?thesis by (rule mset_eq_imp_distinct_iff)
qed

lemma sorted_sort_values_desc:
  "sorted_wrt (\<lambda>a b. valor b \<le> valor a) (sort_values_desc df)"
proof -
  have "sorted (map valor (sort_key valor (rev df)))" by (rule sorted_sort_key)
  then have "sorted_wrt (\<lambda>a b. valor a \<le> valor b) (sort_key valor (rev df))"
    by (simp add: sorted_map)
  then show ?thesis by (simp add: sort_values_desc_def sorted_wrt_rev)
qed

lemma filter_eq_distinct: "distinct xs \<Longrightarrow> n \<in> set xs \<Longrightarrow> filter (\<lambda>k. k = n) xs = [n]"
  by (induction xs) (auto simp: filter_empty_conv)

lemma filter_groupby_agg:
  assumes "n \<in> nome ` set df"
  shows "filter (\<lambda>r. nome r = n) (groupby_agg df) = [agg_row df n]"
proof -
  have "filter (\<lambda>r. nome r = n) (groupby_agg df)
        = map (agg_row df) (filter (\<lambda>k. k = n) (sort (remdups (map nome df))))"
    by (simp add: groupby_agg_def filter_map comp_def nome_agg_row)
  also have "filter (\<lambda>k. k = n) (sort (remdups (map nome df))) = [n]"
    using assms by (intro filter_eq_distinct) auto
  finally show ?thesis by simp
qed

lemma filter_sort_values_desc:
  "filter P (sort_values_desc df) = sort_values_desc (filter P df)"
  by (simp add: sort_values_desc_def rev_filter [symmetric] filter_sort)

lemma parse_result:
  "parse_lince_lines text = Inr df \<Longrightarrow>
   df = [] \<or> (\<exists>ps. ps \<noteq> [] \<and> line_loop (map (\<lambda>line. strip (re_sub spaces2 '' '' line)) (splitlines text)) [] = Inr ps \<and> df = sort_values_desc (groupby_agg ps))"
  by (auto simp: parse_lince_lines_def Let_def split: sum.splits if_splits)

section \<open>Evaluation on concrete inputs\<close>

lemma step_zzz_5:
  "line_step ''ZZZ 1,00 1,000 5,00'' ps
   = Inr (ps @ [\<lparr>nome = ''ZZZ'', preco_unit = 1, quantidade = 1, valor = 5\<rparr>])"
  by (simp add: line_defs re_defs float_defs char_defs)

lemma step_aaa_5:
  "line_step ''AAA 1,00 1,000 5,00'' ps
   = Inr (ps @ [\<lparr>nome = ''AAA'', preco_unit = 1, quantidade = 1, valor = 5\<rparr>])"
  by (simp add: line_defs re_defs float_defs char_defs)

lemma step_zzz_1:
  "line_step ''ZZZ 3,00 2,000 1,00'' ps
   = Inr (ps @ [\<lparr>nome = ''ZZZ'', preco_unit = 3, quantidade = 2, valor = 1\<rparr>])"
  by (simp add: line_defs re_defs float_defs char_defs)

lemma lines_example:
  "map (\<lambda>line. strip (re_sub spaces2 '' '' line))
     (splitlines (''ZZZ 1,00 1,000 5,00'' @ [CHR 0x0A] @ ''AAA 1,00 1,000 5,00'' @ [CHR 0x0A]
        @ ''ZZZ 3,00 2,000 1,00''))
   = [''ZZZ 1,00 1,000 5,00'', ''AAA 1,00 1,000 5,00'', ''ZZZ 3,00 2,000 1,00'']"
  by (simp add: splitlines_def spaces2_def strip_def re_defs char_defs)

lemma lines_example_ties:
  "map (\<lambda>line. strip (re_sub spaces2 '' '' line))
     (splitlines (''ZZZ 1,00 1,000 5,00'' @ [CHR 0x0A] @ ''AAA 1,00 1,000 5,00''))
   = [''ZZZ 1,00 1,000 5,00'', ''AAA 1,00 1,000 5,00'']"
  by (simp add: splitlines_def spaces2_def strip_def re_defs char_defs)

lemma loop_example:
  "line_loop [''ZZZ 1,00 1,000 5,00'', ''AAA 1,00 1,000 5,00'', ''ZZZ 3,00 2,000 1,00''] []
   = Inr [\<lparr>nome = ''ZZZ'', preco_unit = 1, quantidade = 1, valor = 5\<rparr>,
          \<lparr>nome = ''AAA'', preco_unit = 1, quantidade = 1, valor = 5\<rparr>,
          \<lparr>nome = ''ZZZ'', preco_unit = 3, quantidade = 2, valor = 1\<rparr>]"
  by (simp add: step_zzz_5 step_aaa_5 step_zzz_1)

lemma parse_example_ties:
  "parse_lince_lines (''ZZZ 1,00 1,000 5,00'' @ [CHR 0x0A] @ ''AAA 1,00 1,000 5,00'')
   = Inr [\<lparr>nome = ''AAA'', preco_unit = 1, quantidade = 1, valor = 5\<rparr>,
          \<lparr>nome = ''ZZZ'', preco_unit = 1, quantidade = 1, valor = 5\<rparr>]"
  unfolding parse_lince_lines_def Let_def lines_example_ties
  by (simp add: step_zzz_5 step_aaa_5 groupby_agg_def agg_row_def sort_values_desc_def)

lemma parse_example:
  "parse_lince_lines (''ZZZ 1,00 1,000 5,00'' @ [CHR 0x0A] @ ''AAA 1,00 1,000 5,00'' @ [CHR 0x0A]
        @ ''ZZZ 3,00 2,000 1,00'')
   = Inr [\<lparr>nome = ''ZZZ'', preco_unit = 2, quantidade = 3, valor = 6\<rparr>,
          \<lparr>nome = ''AAA'', preco_unit = 1, quantidade = 1, valor = 5\<rparr>]"
  unfolding parse_lince_lines_def Let_def lines_example
  by (simp add: step_zzz_5 step_aaa_5 step_zzz_1 groupby_agg_def agg_row_def sort_values_desc_def)


section \<open>The claims\<close>

text \<open>
  C1. The claim: a token in EN format with comma thousands separators, such as
  \<open>1,234.56\<close>, is read as 1234.56, and \<open>1234.56\<close> is read as 1234.56. The code reads
  \<open>1,234.56\<close> as 1.23456, because the Brazilian reading of a text with a comma succeeds;
  where it fails, as for \<open>1,234,567.89\<close>, the fallback works on the rewritten text and
  fails too. Only the token without a comma is read as the claim says.
\<close>

theorem br_to_float_en_comma:
  "br_to_float (Some ''1,234.56'') = Some (123456 / 100000)
   \<and> br_to_float (Some ''1,234,567.89'') = None
   \<and> br_to_float (Some ''1234.56'') = Some (123456 / 100)"
  by (simp add: float_defs char_defs)

text \<open>
  C2. The claim: with the marker \<open>Departamento:\<close>, a blank line, the line \<open>ACOUGUE\<close> and
  further text, the sector is \<open>ACOUGUE\<close>. The code starts its scan of lines where the
  whole match ends, after the group of up to 40 characters, which here holds \<open>ACOUGUE\<close>
  and the rest of the text; no line is left, and without a file name the result is \<open>N/D\<close>.
\<close>

theorem guess_setor_skips_window:
  "guess_setor (''Departamento:'' @ [CHR 0x0A, CHR 0x0A] @ ''ACOUGUE'' @ [CHR 0x0A] @ ''TOTAL'') None
   = ''N/D''"
  by (simp add: guess_setor_def departamento_def splitlines_def basename_def upper_def
      chaves_def char_defs re_defs strip_def isupper_def)

text \<open>
  C3, as amended. For every text, the rows that \<open>parse_lince_lines\<close> returns are in
  non-increasing order of \<open>valor\<close>. (Nothing is said of the order of rows of equal value.)
\<close>

theorem output_sorted_desc:
  "parse_lince_lines text = Inr df \<Longrightarrow> sorted_wrt (\<lambda>a b. valor b \<le> valor a) df"
  using sorted_sort_values_desc by (auto dest!: parse_result)

theorem output_sorted_desc_witness:
  "parse_lince_lines (''ZZZ 1,00 1,000 5,00'' @ [CHR 0x0A] @ ''AAA 1,00 1,000 5,00'' @ [CHR 0x0A]
        @ ''ZZZ 3,00 2,000 1,00'')
   = Inr [\<lparr>nome = ''ZZZ'', preco_unit = 2, quantidade = 3, valor = 6\<rparr>,
          \<lparr>nome = ''AAA'', preco_unit = 1, quantidade = 1, valor = 5\<rparr>]
   \<and> sorted_wrt (\<lambda>a b. valor b \<le> valor a)
         [\<lparr>nome = ''ZZZ'', preco_unit = 2, quantidade = 3, valor = 6\<rparr>,
          \<lparr>nome = ''AAA'', preco_unit = 1, quantidade = 1, valor = 5\<rparr>]"
  using output_sorted_desc [OF parse_example] parse_example by simp

text \<open>
  C3 as stated fails: two rows of equal value are not in the order of their lines. The
  line of \<open>ZZZ\<close> comes first in the text, and its row comes last, since the grouping puts
  the names in sorted order before the rows are sorted by value.
\<close>

theorem ties_not_in_input_order:
  "parse_lince_lines (''ZZZ 1,00 1,000 5,00'' @ [CHR 0x0A] @ ''AAA 1,00 1,000 5,00'')
   = Inr [\<lparr>nome = ''AAA'', preco_unit = 1, quantidade = 1, valor = 5\<rparr>,
          \<lparr>nome = ''ZZZ'', preco_unit = 1, quantidade = 1, valor = 5\<rparr>]"
  by (rule parse_example_ties)

text \<open>
  C4. For the line \<open>ARROZ BRANCO 5KG 12,50 3,000 37,50 123456 7891234567890\<close> the first
  substitution drops the 13 digits, the second the 6 digits, and the record has the name
  \<open>ARROZ BRANCO 5KG\<close>, the unit price 12.5, the quantity 3 and the value 37.5.
\<close>

theorem arroz_line:
  "re_sub ean [] ''ARROZ BRANCO 5KG 12,50 3,000 37,50 123456 7891234567890''
     = ''ARROZ BRANCO 5KG 12,50 3,000 37,50 123456 ''
   \<and> clean ''ARROZ BRANCO 5KG 12,50 3,000 37,50 123456 7891234567890''
     = ''ARROZ BRANCO 5KG 12,50 3,000 37,50''
   \<and> line_step ''ARROZ BRANCO 5KG 12,50 3,000 37,50 123456 7891234567890'' []
     = Inr [\<lparr>nome = ''ARROZ BRANCO 5KG'', preco_unit = 25 / 2, quantidade = 3,
              valor = 75 / 2\<rparr>]"
  by (simp add: line_defs re_defs float_defs char_defs)



text \<open>
  C6. For every name among the validated records, the output has exactly one row of that
  name; its quantity and its value are the sums over the records of that name, and its
  unit price is their mean.
\<close>

theorem group_sums_and_mean:
  assumes "line_loop (map (\<lambda>line. strip (re_sub spaces2 '' '' line)) (splitlines text)) []
           = Inr produtos"
    and "n \<in> nome ` set produtos"
  shows "\<exists>df. parse_lince_lines text = Inr df \<and>
           filter (\<lambda>r. nome r = n) df =
             [\<lparr>nome = n,
               preco_unit = sum_list (map preco_unit (filter (\<lambda>p. nome p = n) produtos))
                            / of_nat (length (filter (\<lambda>p. nome p = n) produtos)),
               quantidade = sum_list (map quantidade (filter (\<lambda>p. nome p = n) produtos)),
               valor = sum_list (map valor (filter (\<lambda>p. nome p = n) produtos))\<rparr>]"
proof -
  from assms(2) have ne: "produtos \<noteq> []" by auto
  have "parse_lince_lines text = Inr (sort_values_desc (groupby_agg produtos))"
    using assms(1) ne by (simp add: parse_lince_lines_def Let_def)
  moreover have "filter (\<lambda>r. nome r = n) (sort_values_desc (groupby_agg produtos))
                 = [agg_row produtos n]"
  proof -
    have "filter (\<lambda>r. nome r = n) (sort_values_desc (groupby_agg produtos))
          = sort_values_desc [agg_row produtos n]"
      using assms(2) by (simp add: filter_sort_values_desc filter_groupby_agg)
    then show ?thesis by (simp add: sort_values_desc_def)
  qed
  ultimately show ?thesis by (simp add: agg_row_def Let_def)
qed

theorem group_sums_and_mean_witness:
  "line_loop (map (\<lambda>line. strip (re_sub spaces2 '' '' line))
      (splitlines (''ZZZ 1,00 1,000 5,00'' @ [CHR 0x0A] @ ''AAA 1,00 1,000 5,00'' @ [CHR 0x0A]
        @ ''ZZZ 3,00 2,000 1,00''))) []
     = Inr [\<lparr>nome = ''ZZZ'', preco_unit = 1, quantidade = 1, valor = 5\<rparr>,
            \<lparr>nome = ''AAA'', preco_unit = 1, quantidade = 1, valor = 5\<rparr>,
            \<lparr>nome = ''ZZZ'', preco_unit = 3, quantidade = 2, valor = 1\<rparr>]
   \<and> (\<exists>df. parse_lince_lines (''ZZZ 1,00 1,000 5,00'' @ [CHR 0x0A] @ ''AAA 1,00 1,000 5,00''
          @ [CHR 0x0A] @ ''ZZZ 3,00 2,000 1,00'') = Inr df
        \<and> filter (\<lambda>r. nome r = ''ZZZ'') df
          = [\<lparr>nome = ''ZZZ'', preco_unit = 2, quantidade = 3, valor = 6\<rparr>])"
proof -
  have h: "line_loop (map (\<lambda>line. strip (re_sub spaces2 '' '' line))
      (splitlines (''ZZZ 1,00 1,000 5,00'' @ [CHR 0x0A] @ ''AAA 1,00 1,000 5,00'' @ [CHR 0x0A]
        @ ''ZZZ 3,00 2,000 1,00''))) []
     = Inr [\<lparr>nome = ''ZZZ'', preco_unit = 1, quantidade = 1, valor = 5\<rparr>,
            \<lparr>nome = ''AAA'', preco_unit = 1, quantidade = 1, valor = 5\<rparr>,
            \<lparr>nome = ''ZZZ'', preco_unit = 3, quantidade = 2, valor = 1\<rparr>]"
    unfolding lines_example by (rule loop_example)
  show ?thesis
    using h group_sums_and_mean [OF h, of "''ZZZ''"] by simp
qed

text \<open>
  C7. For every text, no two rows that \<open>parse_lince_lines\<close> returns have the same name.
\<close>

theorem output_names_unique:
  "parse_lince_lines text = Inr df \<Longrightarrow> distinct (map nome df)"
  by (auto dest!: parse_result simp: distinct_sort_values_desc distinct_groupby_agg)

theorem output_names_unique_witness:
  "parse_lince_lines (''ZZZ 1,00 1,000 5,00'' @ [CHR 0x0A] @ ''AAA 1,00 1,000 5,00'' @ [CHR 0x0A]
        @ ''ZZZ 3,00 2,000 1,00'')
   = Inr [\<lparr>nome = ''ZZZ'', preco_unit = 2, quantidade = 3, valor = 6\<rparr>,
          \<lparr>nome = ''AAA'', preco_unit = 1, quantidade = 1, valor = 5\<rparr>]
   \<and> distinct (map nome
         [\<lparr>nome = ''ZZZ'', preco_unit = 2, quantidade = 3, valor = 6\<rparr>,
          \<lparr>nome = ''AAA'', preco_unit = 1, quantidade = 1, valor = 5\<rparr>])"
  using output_names_unique [OF parse_example] parse_example by simp





text \<open>
  C10. Take a line made of a name, a price token, a quantity token and a last field of 4
  to 8 digits, with single spaces between them, where the name starts with no white space
  and has no numeric token after white space. The two substitutions remove the last field
  (and, when it has 8 digits, at most a final run of digits of the quantity token), the
  text that is left does not match the pattern, and the line adds no record.
\<close>

theorem trailing_integer_skipped:
  assumes name: "name \<noteq> []" "\<not> is_space (hd name)"
    and hb: "\<forall>a c t b. name = a @ c # t @ b \<and> is_space c \<and> t \<noteq> [] \<and> list_all num_char t
                 \<longrightarrow> b \<noteq> [] \<and> \<not> is_space (hd b)"
    and P: "P \<noteq> []" "list_all num_char P"
    and Q: "Q \<noteq> []" "list_all num_char Q"
    and d: "list_all is_digit d" "4 \<le> length d" "length d \<le> 8"
  shows "(\<exists>Q' x. Q = Q' @ x \<and> list_all is_digit x
            \<and> clean (name @ '' '' @ P @ '' '' @ Q @ '' '' @ d) = strip (name @ '' '' @ P @ '' '' @ Q'))
         \<and> re_match patt (clean (name @ '' '' @ P @ '' '' @ Q @ '' '' @ d)) = None
         \<and> line_step (name @ '' '' @ P @ '' '' @ Q @ '' '' @ d) produtos = Inr produtos"
proof -
  let ?B = "name @ CHR '' '' # P"
  let ?line = "?B @ CHR '' '' # Q @ CHR '' '' # d"
  have line: "name @ '' '' @ P @ '' '' @ Q @ '' '' @ d = ?line" by simp
  have lastP: "\<not> is_space (last P)" using P by (simp add: list_all_iff num_not_space)
  have lastQ: "\<not> is_space (last Q)" using Q by (simp add: list_all_iff num_not_space)
  have B: "?B \<noteq> []" "\<not> is_space (hd ?B)" "\<not> is_space (last ?B)"
    using name P(1) lastP by simp_all
  let ?U = "?B @ CHR '' '' # Q"
  have U: "?U \<noteq> []" "\<not> is_space (hd ?U)" "\<not> is_space (last ?U)"
    using name Q(1) lastQ by simp_all
  have lineU: "?line = ?U @ CHR '' '' # d" by simp
  have stripU: "strip ?U = ?U" using U by (intro strip_id) blast
  have shape: "\<exists>Q' x. Q = Q' @ x \<and> list_all is_digit x
                 \<and> clean ?line = (if Q' = [] then ?B else ?B @ CHR '' '' # Q')"
  proof (cases "length d < 8")
    case True
    have "clean (?U @ CHR '' '' # d) = ?U" using U d(1,2) True by (rule clean_short)
    then have "Q = Q @ [] \<and> list_all is_digit []
       \<and> clean ?line = (if Q = [] then ?B else ?B @ CHR '' '' # Q)"
      unfolding lineU using Q(1) by simp
    then show ?thesis by blast
  next
    case False
    then have "8 \<le> length d" "length d \<le> 13" using d(3) by auto
    with U d(1) have c: "clean (?U @ CHR '' '' # d) = strip (re_sub codigo [] ?U)"
      by (rule clean_long)
    from codigo_on_fields [OF B Q] show ?thesis
    proof
      assume "strip (re_sub codigo [] ?U) = ?U"
      then have "Q = Q @ [] \<and> list_all is_digit []
         \<and> clean ?line = (if Q = [] then ?B else ?B @ CHR '' '' # Q)"
        unfolding lineU c using Q(1) by simp
      then show ?thesis by blast
    next
      assume "\<exists>Q' x. Q = Q' @ x \<and> list_all is_digit x
         \<and> strip (re_sub codigo [] ?U) = (if Q' = [] then ?B else ?B @ CHR '' '' # Q')"
      then show ?thesis unfolding lineU c .
    qed
  qed
  then obtain Q' x where Q': "Q = Q' @ x" "list_all is_digit x"
    and cl: "clean ?line = (if Q' = [] then ?B else ?B @ CHR '' '' # Q')" by blast
  have numQ': "list_all num_char Q'" using Q(2) unfolding Q'(1) by simp
  have st: "strip (?B @ CHR '' '' # Q') = (if Q' = [] then ?B else ?B @ CHR '' '' # Q')"
  proof (cases "Q' = []")
    case True
    have "strip (?B @ [CHR '' '']) = ?B" using B space_facts(3) by (rule strip_snoc_space)
    then show ?thesis using True by simp
  next
    case False
    then have "\<not> is_space (last Q')" using numQ' by (simp add: list_all_iff num_not_space)
    then have "\<not> is_space (last (?B @ CHR '' '' # Q'))" using False by simp
    moreover have "\<not> is_space (hd (?B @ CHR '' '' # Q'))" using name by simp
    ultimately have "strip (?B @ CHR '' '' # Q') = ?B @ CHR '' '' # Q'" by (intro strip_id) blast
    then show ?thesis using False by simp
  qed
  have R: "(if Q' = [] then [] else CHR '' '' # Q') = []
      \<or> (\<exists>Q''. (if Q' = [] then [] else CHR '' '' # Q') = CHR '' '' # Q'' \<and> list_all num_char Q'')"
    using numQ' by simp
  have "re_match patt (name @ CHR '' '' # P @ (if Q' = [] then [] else CHR '' '' # Q')) = None"
    using hb P(2) R by (rule patt_no_match)
  moreover have "name @ CHR '' '' # P @ (if Q' = [] then [] else CHR '' '' # Q') = clean ?line"
    unfolding cl by simp
  ultimately have nomatch: "re_match patt (clean ?line) = None" by simp
  have 1: "\<exists>Q' x. Q = Q' @ x \<and> list_all is_digit x
            \<and> clean ?line = strip (name @ '' '' @ P @ '' '' @ Q')"
  proof -
    have "name @ '' '' @ P @ '' '' @ Q' = ?B @ CHR '' '' # Q'" by simp
    then have "clean ?line = strip (name @ '' '' @ P @ '' '' @ Q')" using cl st by simp
    then show ?thesis using Q' by blast
  qed
  have 3: "line_step ?line produtos = Inr produtos"
    using nomatch by (simp add: line_step_def)
  show ?thesis unfolding line using 1 nomatch 3 by blast
qed

theorem trailing_integer_skipped_witness:
  "clean ''ARROZ 12,50 3,000 3750'' = ''ARROZ 12,50 3,000''
   \<and> re_match patt (clean ''ARROZ 12,50 3,000 3750'') = None
   \<and> line_step ''ARROZ 12,50 3,000 3750'' [] = Inr []"
proof -
  have hb: "\<forall>a c t b. ''ARROZ'' = a @ c # t @ b \<and> is_space c \<and> t \<noteq> [] \<and> list_all num_char t
              \<longrightarrow> b \<noteq> [] \<and> \<not> is_space (hd b)"
  proof (intro allI impI)
    fix a c t b
    assume h: "''ARROZ'' = a @ c # t @ b \<and> is_space c \<and> t \<noteq> [] \<and> list_all num_char t"
    then have e: "''ARROZ'' = a @ c # t @ b" by blast
    have "c \<in> set (a @ c # t @ b)" by simp
    then have "c \<in> set ''ARROZ''" unfolding e [symmetric] .
    then have "\<not> is_space c" by (auto simp: char_defs)
    with h show "b \<noteq> [] \<and> \<not> is_space (hd b)" by blast
  qed
  have n: "''ARROZ'' \<noteq> []" "\<not> is_space (hd ''ARROZ'')" by (simp_all add: char_defs)
  have p: "''12,50'' \<noteq> []" "list_all num_char ''12,50''" by (simp_all add: char_defs)
  have q: "''3,000'' \<noteq> []" "list_all num_char ''3,000''" by (simp_all add: char_defs)
  have d: "list_all is_digit ''3750''" "4 \<le> length ''3750''" "length ''3750'' \<le> 8"
    by (simp_all add: char_defs)
  have c: "clean ''ARROZ 12,50 3,000 3750'' = ''ARROZ 12,50 3,000''"
    by (simp add: clean_def ean_def codigo_def re_defs strip_def char_defs)
  from trailing_integer_skipped [OF n hb p q d, of "[]"]
  have "re_match patt (clean ''ARROZ 12,50 3,000 3750'') = None
        \<and> line_step ''ARROZ 12,50 3,000 3750'' [] = Inr []"
    by simp
  then show ?thesis using c by simp
qed

end
